theory Spec2Isabelle
  imports Main
begin

section \<open>Strings\<close>

text \<open>
  A JavaScript string is modelled as a \<^typ>\<open>string\<close>, one \<^typ>\<open>char\<close> per code unit;
  the model covers the texts whose code units are all below 256 (ASCII and Latin-1).
\<close>

definition isWhiteSpace :: "char \<Rightarrow> bool" where
  \<comment> \<open>the characters of \<open>\s\<close> (and of \<open>trim\<close>) below 256: TAB, LF, VT, FF, CR, SP, NBSP\<close>
  "isWhiteSpace c = ((of_char c :: nat) \<in> {9, 10, 11, 12, 13, 32, 160})"

definition isDigit :: "char \<Rightarrow> bool" where
  "isDigit c = (48 \<le> (of_char c :: nat) \<and> (of_char c :: nat) \<le> 57)"

definition isWordChar :: "char \<Rightarrow> bool" where
  \<comment> \<open>the word characters of \<open>\b\<close>: letters, digits and the underscore\<close>
  "isWordChar c = (let n = (of_char c :: nat) in
     (65 \<le> n \<and> n \<le> 90) \<or> (97 \<le> n \<and> n \<le> 122) \<or> (48 \<le> n \<and> n \<le> 57) \<or> n = 95)"

text \<open>
  The case mappings below 256. Three characters have an upper case form that is not a
  character below 256 (the micro sign, the sharp s and the y with diaeresis); they are
  left as they are. In comparisons under the \<open>i\<close> flag this changes nothing, since no
  other character below 256 shares their canonical form; \<open>toUpperCase\<close> is applied to
  matches only, which hold letters of \<open>WCAGS\<close>, digits, dots and white space.
\<close>

definition toUpperChar :: "char \<Rightarrow> char" where
  "toUpperChar c = (let n = (of_char c :: nat) in
     if (97 \<le> n \<and> n \<le> 122) \<or> (224 \<le> n \<and> n \<le> 254 \<and> n \<noteq> 247)
     then char_of (n - 32) else c)"

definition toLowerChar :: "char \<Rightarrow> char" where
  "toLowerChar c = (let n = (of_char c :: nat) in
     if (65 \<le> n \<and> n \<le> 90) \<or> (192 \<le> n \<and> n \<le> 222 \<and> n \<noteq> 215)
     then char_of (n + 32) else c)"

definition toUpperCase :: "string \<Rightarrow> string" where
  "toUpperCase s = map toUpperChar s"

definition toLowerCase :: "string \<Rightarrow> string" where
  "toLowerCase s = map toLowerChar s"

text \<open>\<open>s.substring(i, e)\<close> for \<open>i \<le> e\<close>.\<close>

definition substring :: "string \<Rightarrow> nat \<Rightarrow> nat \<Rightarrow> string" where
  "substring s i e = take (e - i) (drop i s)"

text \<open>\<open>s.replace(/\s+/g, ' ')\<close>: every maximal run of white space becomes one space.\<close>

function collapseWhiteSpace :: "string \<Rightarrow> string" where
  "collapseWhiteSpace [] = []"
| "collapseWhiteSpace (c # s) =
     (if isWhiteSpace c then CHR '' '' # collapseWhiteSpace (dropWhile isWhiteSpace s)
      else c # collapseWhiteSpace s)"
  by pat_completeness auto
termination
  by (relation "measure length") (auto simp: less_Suc_eq_le length_dropWhile_le)

definition trim :: "string \<Rightarrow> string" where
  "trim s = rev (dropWhile isWhiteSpace (rev (dropWhile isWhiteSpace s)))"

text \<open>\<open>s.includes(sub)\<close>: \<open>sub\<close> occurs in \<open>s\<close> at some position.\<close>

fun str_includes :: "string \<Rightarrow> string \<Rightarrow> bool" where
  "str_includes [] sub = (sub = [])"
| "str_includes (c # s) sub = (take (length sub) (c # s) = sub \<or> str_includes s sub)"

text \<open>\<open>xs.join(sep)\<close>.\<close>

fun join :: "string \<Rightarrow> string list \<Rightarrow> string" where
  "join sep [] = []"
| "join sep [x] = x"
| "join sep (x # y # ys) = x @ sep @ join sep (y # ys)"

text \<open>A JavaScript \<open>Set\<close> of strings, in insertion order: \<open>add\<close>, and \<open>[...new Set(xs)]\<close>.\<close>

definition Set_add :: "'a \<Rightarrow> 'a list \<Rightarrow> 'a list" where
  "Set_add x xs = (if x \<in> set xs then xs else xs @ [x])"

definition Set_from :: "'a list \<Rightarrow> 'a list" where
  "Set_from xs = fold Set_add xs []"

section \<open>Regular expressions\<close>

text \<open>
  The fragment of ECMAScript regular expressions that \<open>WCAG_PATTERNS\<close> uses: a sequence
  of single characters, character classes, greedy repetitions of those, and word
  boundaries. Capture groups do not change \<open>match[0]\<close> and are left out. Every pattern
  carries the \<open>g\<close> flag, so \<open>exec\<close> starts at \<open>lastIndex\<close> and stores the end of the
  match there.
\<close>

datatype charClass = Space | DigitOrDot | Digit

datatype atom = Lit char | Cls charClass

datatype node = One atom | Rep atom nat "nat option" | WordBoundary

record regexp =
  nodes :: "node list"
  ignoreCase :: bool
  lastIndex :: nat

fun inClass :: "charClass \<Rightarrow> char \<Rightarrow> bool" where
  "inClass Space c = isWhiteSpace c"
| "inClass DigitOrDot c = (isDigit c \<or> c = CHR ''.'')"
| "inClass Digit c = isDigit c"

text \<open>
  With the \<open>i\<close> flag two characters match when their canonical (upper case) forms are
  equal. The three classes hold no letters, so the flag does not change them.
\<close>

fun accepts :: "bool \<Rightarrow> atom \<Rightarrow> char \<Rightarrow> bool" where
  "accepts ic (Lit x) c = (if ic then toUpperChar x = toUpperChar c else x = c)"
| "accepts ic (Cls k) c = inClass k c"

fun firstSome :: "'a option list \<Rightarrow> 'a option" where
  "firstSome [] = None"
| "firstSome (None # xs) = firstSome xs"
| "firstSome (Some x # xs) = Some x"

definition isWordAt :: "string \<Rightarrow> nat \<Rightarrow> bool" where
  "isWordAt t i = (i < length t \<and> isWordChar (t ! i))"

text \<open>
  \<open>matcher ic ns t i\<close> matches the nodes \<open>ns\<close> against \<open>t\<close> from index \<open>i\<close> and returns
  the end index of the match. A greedy repetition takes as many characters as it can
  (at most its upper bound) and gives them back one at a time while the rest of the
  pattern fails: the backtracking order of the language.
\<close>

fun matcher :: "bool \<Rightarrow> node list \<Rightarrow> string \<Rightarrow> nat \<Rightarrow> nat option" where
  "matcher ic [] t i = Some i"
| "matcher ic (One a # ns) t i =
     (if i < length t \<and> accepts ic a (t ! i) then matcher ic ns t (Suc i) else None)"
| "matcher ic (WordBoundary # ns) t i =
     (if (0 < i \<and> isWordAt t (i - 1)) \<noteq> isWordAt t i then matcher ic ns t i else None)"
| "matcher ic (Rep a lo hi # ns) t i =
     (let run = length (takeWhile (accepts ic a) (drop i t));
          k = (case hi of None \<Rightarrow> run | Some h \<Rightarrow> min h run)
      in firstSome (map (\<lambda>j. matcher ic ns t (i + j)) (rev [lo..<Suc k])))"

text \<open>The first index from \<open>i\<close> on at which the pattern matches, with the end of the match.\<close>

function scan :: "bool \<Rightarrow> node list \<Rightarrow> string \<Rightarrow> nat \<Rightarrow> (nat \<times> nat) option" where
  "scan ic ns t i =
     (if length t < i then None
      else case matcher ic ns t i of
             Some e \<Rightarrow> Some (i, e)
           | None \<Rightarrow> scan ic ns t (Suc i))"
  by pat_completeness auto
termination
  by (relation "measure (\<lambda>(ic, ns, t, i). Suc (length t) - i)") auto

text \<open>
  \<open>pattern.exec(text)\<close> on a global pattern: the match (\<open>match[0]\<close>) or null, and the
  pattern with its new \<open>lastIndex\<close> (the end of the match, or 0 after a failure).
\<close>

definition exec :: "regexp \<Rightarrow> string \<Rightarrow> string option \<times> regexp" where
  "exec re t =
     (case scan (ignoreCase re) (nodes re) t (lastIndex re) of
        None \<Rightarrow> (None, re\<lparr>lastIndex := 0\<rparr>)
      | Some (i, e) \<Rightarrow> (Some (substring t i e), re\<lparr>lastIndex := e\<rparr>))"

section \<open>findWcagScInText\<close>

text \<open>
  The five patterns, in the order of the source:
  \<^enum> \<^verbatim>\<open>/WCAG\s*([0-9\.]+)\s*(A{1,3})/gi\<close>
  \<^enum> \<^verbatim>\<open>/SC\s*([0-9\.]+)/gi\<close>
  \<^enum> \<^verbatim>\<open>/\b([0-9]+\.[0-9]+\.[0-9]+)\b/g\<close>
  \<^enum> \<^verbatim>\<open>/AA/gi\<close>
  \<^enum> \<^verbatim>\<open>/A/gi\<close>
\<close>

definition WCAG_PATTERNS :: "regexp list" where
  "WCAG_PATTERNS =
    [ \<lparr>nodes = [One (Lit CHR ''W''), One (Lit CHR ''C''), One (Lit CHR ''A''), One (Lit CHR ''G''),
                Rep (Cls Space) 0 None, Rep (Cls DigitOrDot) 1 None, Rep (Cls Space) 0 None,
                Rep (Lit CHR ''A'') 1 (Some 3)],
       ignoreCase = True, lastIndex = 0\<rparr>,
      \<lparr>nodes = [One (Lit CHR ''S''), One (Lit CHR ''C''),
                Rep (Cls Space) 0 None, Rep (Cls DigitOrDot) 1 None],
       ignoreCase = True, lastIndex = 0\<rparr>,
      \<lparr>nodes = [WordBoundary, Rep (Cls Digit) 1 None, One (Lit CHR ''.''),
                Rep (Cls Digit) 1 None, One (Lit CHR ''.''), Rep (Cls Digit) 1 None, WordBoundary],
       ignoreCase = False, lastIndex = 0\<rparr>,
      \<lparr>nodes = [One (Lit CHR ''A''), One (Lit CHR ''A'')], ignoreCase = True, lastIndex = 0\<rparr>,
      \<lparr>nodes = [One (Lit CHR ''A'')], ignoreCase = True, lastIndex = 0\<rparr> ]"

text \<open>\<open>match[0].toUpperCase().replace(/\s+/g, ' ').trim()\<close>\<close>

definition normalize :: "string \<Rightarrow> string" where
  "normalize m = trim (collapseWhiteSpace (toUpperCase m))"

text \<open>
  The loop \<open>while ((match = pattern.exec(text)) !== null)\<close>. It does not return when
  \<open>exec\<close> keeps finding the same empty match; not returning is the value \<open>None\<close>.
\<close>

partial_function (option) execLoop ::
  "regexp \<Rightarrow> string \<Rightarrow> string list \<Rightarrow> (string list \<times> regexp) option" where
  "execLoop pattern text foundSc =
     (case exec pattern text of
        (None, pattern') \<Rightarrow> Some (foundSc, pattern')
      | (Some match, pattern') \<Rightarrow>
          execLoop pattern' text
            (if match \<noteq> [] then Set_add (normalize match) foundSc else foundSc))"

declare execLoop.simps [code]

text \<open>
  \<open>WCAG_PATTERNS.forEach(...)\<close>: the patterns are objects shared by all calls, so the
  list of patterns is state, passed in and returned.
\<close>

fun forEachPattern ::
  "regexp list \<Rightarrow> string \<Rightarrow> string list \<Rightarrow> (string list \<times> regexp list) option" where
  "forEachPattern [] text foundSc = Some (foundSc, [])"
| "forEachPattern (pattern # ps) text foundSc =
     (case execLoop (pattern\<lparr>lastIndex := 0\<rparr>) text foundSc of
        None \<Rightarrow> None
      | Some (foundSc', pattern') \<Rightarrow>
          (case forEachPattern ps text foundSc' of
             None \<Rightarrow> None
           | Some (foundSc'', ps') \<Rightarrow> Some (foundSc'', pattern' # ps')))"

text \<open>An absent text (null, undefined) is \<open>None\<close>; the empty string is falsy as well.\<close>

definition findWcagScInText ::
  "string option \<Rightarrow> regexp list \<Rightarrow> (string list \<times> regexp list) option" where
  "findWcagScInText text patterns =
     (case text of
        None \<Rightarrow> Some ([], patterns)
      | Some t \<Rightarrow> if t = [] then Some ([], patterns) else forEachPattern patterns t [])"

section \<open>The remote API\<close>

text \<open>
  The objects of the GitHub API, with the fields the script reads. An absent (null or
  undefined) field is \<open>None\<close>; \<open>pull_request\<close> tells whether the issue carries the
  pull-request object.
\<close>

record user =
  login :: string

record label =
  name :: string

record repository =
  name :: string
  full_name :: string
  owner :: user
  fork :: bool

record issue =
  issue_id :: int
  number :: int
  title :: string
  body :: "string option"
  labels :: "label list"
  user :: "user option"
  created_at :: string
  updated_at :: string
  comments :: int
  state :: string
  pull_request :: bool
  html_url :: string

record comment =
  user :: "user option"
  body :: "string option"

text \<open>The parameter object of a listing call; a key the call site does not set is \<open>None\<close>.\<close>

record params =
  org :: "string option"
  type' :: "string option"
  owner :: "string option"
  repo :: "string option"
  state :: "string option"
  issue_number :: "int option"

definition noParams :: params where
  "noParams = \<lparr>org = None, type' = None, owner = None, repo = None, state = None,
                issue_number = None\<rparr>"

text \<open>
  The error object a call throws: \<open>error.status\<close>, \<open>error.response.headers\<close> (when
  \<open>error.response\<close> and its headers exist) and \<open>error.message\<close>.
\<close>

record apiError =
  status :: "int option"
  headers :: "(string \<times> string) list option"
  message :: string

text \<open>A call resolves to a response, whose \<open>data\<close> may be absent, or throws.\<close>

datatype 'a reply = Response "'a list option" | Throws apiError

text \<open>
  A listing operation takes the parameters, \<open>page\<close> and \<open>per_page\<close>, and the state of
  the remote side, which it may change. The three operations the script calls are
  gathered in one record, with the clock: \<open>toISOString\<close> is \<open>new Date().toISOString()\<close>.
\<close>

type_synonym ('a, 'w) apiCall = "params \<Rightarrow> nat \<Rightarrow> nat \<Rightarrow> 'w \<Rightarrow> 'a reply \<times> 'w"

record 'w octokit =
  repos_listForOrg :: "(repository, 'w) apiCall"
  issues_listForRepo :: "(issue, 'w) apiCall"
  issues_listComments :: "(comment, 'w) apiCall"
  toISOString :: "'w \<Rightarrow> string"

text \<open>
  What the run writes to \<open>console.warn\<close> and \<open>console.error\<close>, one constructor per
  message, with the values the message is built from. The rate-limit message shows the
  local time computed from the \<open>x-ratelimit-reset\<close> header; the event carries the header.
  Progress lines on standard output are not modelled.
\<close>

datatype event =
    NotFoundWarning "string option" "string option"
  | RateLimitExceeded "string option"
  | FetchError nat string

text \<open>
  The state the script works on: the remote side, the console, and the shared pattern
  objects with their cursors.
\<close>

record 'w machine =
  api :: 'w
  console :: "event list"
  patterns :: "regexp list"

text \<open>A call either returns, or ends the process with \<open>process.exit(code)\<close>.\<close>

datatype 'a outcome = Return 'a | Exit int

section \<open>fetchAllPages\<close>

definition rateLimitExhausted :: "apiError \<Rightarrow> bool" where
  \<comment> \<open>status 403 and the header \<open>x-ratelimit-remaining\<close> equal to the string \<open>0\<close>\<close>
  "rateLimitExhausted error =
     (status error = Some 403 \<and>
      (case headers error of
         None \<Rightarrow> False
       | Some h \<Rightarrow> map_of h ''x-ratelimit-remaining'' = Some ''0''))"

definition resetHeader :: "apiError \<Rightarrow> string option" where
  "resetHeader error =
     (case headers error of None \<Rightarrow> None | Some h \<Rightarrow> map_of h ''x-ratelimit-reset'')"

text \<open>
  The loop of \<open>fetchAllPages\<close>, from any of its states: the items so far, the page
  number and the machine. Its variable \<open>hasMore\<close> is the choice between calling itself
  and returning. The source never assigns \<open>page\<close> in the loop, so the call for more
  items passes \<open>page\<close> on as it is. A loop that never ends is the value \<open>None\<close>.
\<close>

partial_function (option) fetchLoop ::
  "('a, 'w) apiCall \<Rightarrow> params \<Rightarrow> 'a list \<Rightarrow> nat \<Rightarrow> 'w machine \<Rightarrow>
     ('a list outcome \<times> 'w machine) option" where
  "fetchLoop apiCall ps allItems page m =
     (case apiCall ps page 100 (api m) of
        (Response data, w) \<Rightarrow>
          (case data of
             None \<Rightarrow> Some (Return allItems, m\<lparr>api := w\<rparr>)
           | Some items \<Rightarrow>
               if 0 < length items then
                 if length items < 100 then Some (Return (allItems @ items), m\<lparr>api := w\<rparr>)
                 else fetchLoop apiCall ps (allItems @ items) page (m\<lparr>api := w\<rparr>)
               else Some (Return allItems, m\<lparr>api := w\<rparr>))
      | (Throws error, w) \<Rightarrow>
          if status error = Some 404 then
            Some (Return allItems,
                  m\<lparr>api := w,
                    console := console m @ [NotFoundWarning (owner ps) (repo ps)]\<rparr>)
          else if rateLimitExhausted error then
            Some (Exit 1,
                  m\<lparr>api := w, console := console m @ [RateLimitExceeded (resetHeader error)]\<rparr>)
          else
            Some (Return allItems,
                  m\<lparr>api := w, console := console m @ [FetchError page (message error)]\<rparr>))"

declare fetchLoop.simps [code]

definition fetchAllPages ::
  "('a, 'w) apiCall \<Rightarrow> params \<Rightarrow> 'w machine \<Rightarrow> ('a list outcome \<times> 'w machine) option" where
  "fetchAllPages apiCall ps m = fetchLoop apiCall ps [] 1 m"

text \<open>
  The same function in the older copy of the script (\<open>src/gather-accessibility-issues.js\<close>):
  it adds one to \<open>page\<close> after every page with items, stops at the first empty page,
  and logs any error and stops. Reading \<open>length\<close> of an absent \<open>data\<close> throws inside the
  \<open>try\<close> block and is logged like any other error.
\<close>

partial_function (option) fetchLoop_older ::
  "('a, 'w) apiCall \<Rightarrow> params \<Rightarrow> 'a list \<Rightarrow> nat \<Rightarrow> 'w machine \<Rightarrow>
     ('a list outcome \<times> 'w machine) option" where
  "fetchLoop_older apiCall ps allItems page m =
     (case apiCall ps page 100 (api m) of
        (Response data, w) \<Rightarrow>
          (case data of
             None \<Rightarrow>
               Some (Return allItems,
                     m\<lparr>api := w,
                       console := console m @
                         [FetchError page
                            ''Cannot read properties of undefined (reading 'length')'']\<rparr>)
           | Some items \<Rightarrow>
               if 0 < length items then
                 fetchLoop_older apiCall ps (allItems @ items) (page + 1) (m\<lparr>api := w\<rparr>)
               else Some (Return allItems, m\<lparr>api := w\<rparr>))
      | (Throws error, w) \<Rightarrow>
          Some (Return allItems,
                m\<lparr>api := w, console := console m @ [FetchError page (message error)]\<rparr>))"

declare fetchLoop_older.simps [code]

definition fetchAllPages_older ::
  "('a, 'w) apiCall \<Rightarrow> params \<Rightarrow> 'w machine \<Rightarrow> ('a list outcome \<times> 'w machine) option" where
  "fetchAllPages_older apiCall ps m = fetchLoop_older apiCall ps [] 1 m"

section \<open>gatherAccessibilityIssues\<close>

text \<open>The row of the export, one field per column of the CSV file.\<close>

record exportRecord =
  WCAG_SC :: "string option"
  Issue_ID :: string
  Issue_Title :: string
  Issue_URL :: string
  Project :: string
  Status :: string
  Priority :: "string option"
  Component :: "string option"
  Version :: "string option"
  Reporter :: string
  Created :: string
  Updated :: string
  Comments :: int
  Has_Fork :: string
  Last_Commenter :: "string option"
  Extracted_At :: string

text \<open>The decimal form of an integer, as a template literal prints it.\<close>

function showNat :: "nat \<Rightarrow> string" where
  "showNat n = (if n < 10 then [char_of (48 + n)] else showNat (n div 10) @ [char_of (48 + n mod 10)])"
  by pat_completeness auto
termination
  by (relation "measure id") auto

definition showInt :: "int \<Rightarrow> string" where
  "showInt i = (if i < 0 then CHR ''-'' # showNat (nat (- i)) else showNat (nat i))"

text \<open>The two tests of the inclusion rule, named as the source names their results.\<close>

definition hasRelevantLabel :: "string \<Rightarrow> string list \<Rightarrow> issue \<Rightarrow> bool" where
  "hasRelevantLabel primaryLabel additionalLabels i =
     (let issueLabels = map (\<lambda>l. toLowerCase (label.name l)) (labels i)
      in toLowerCase primaryLabel \<in> set issueLabels \<or>
         list_ex (\<lambda>l. toLowerCase l \<in> set issueLabels) additionalLabels)"

definition isKeywordFoundInText :: "issue \<Rightarrow> bool" where
  "isKeywordFoundInText i =
     (str_includes (toLowerCase (title i)) ''accessibility'' \<or>
      (case issue.body i of
         None \<Rightarrow> False
       | Some b \<Rightarrow> b \<noteq> [] \<and> str_includes (toLowerCase b) ''accessibility''))"

text \<open>\<open>comments.forEach(comment => wcagScFound = wcagScFound.concat(findWcagScInText(comment.body)))\<close>\<close>

fun forEachComment ::
  "comment list \<Rightarrow> string list \<Rightarrow> regexp list \<Rightarrow> (string list \<times> regexp list) option" where
  "forEachComment [] wcagScFound ps = Some (wcagScFound, ps)"
| "forEachComment (c # cs) wcagScFound ps =
     (case findWcagScInText (comment.body c) ps of
        None \<Rightarrow> None
      | Some (found, ps') \<Rightarrow> forEachComment cs (wcagScFound @ found) ps')"

text \<open>
  The block that fetches the comments of an included issue: the last commenter and the
  tokens found in the comment bodies. Nothing inside its \<open>try\<close> throws: \<open>fetchAllPages\<close>
  catches every error of the call, so the \<open>catch\<close> branch has no case here.
\<close>

definition scanComments ::
  "'w octokit \<Rightarrow> repository \<Rightarrow> issue \<Rightarrow> 'w machine \<Rightarrow>
     ((string option \<times> string list) outcome \<times> 'w machine) option" where
  "scanComments octo r i m =
     (if 0 < comments i then
        (case fetchAllPages (issues_listComments octo)
                (noParams\<lparr>owner := Some (login (repository.owner r)),
                          repo := Some (repository.name r),
                          issue_number := Some (number i)\<rparr>) m of
           None \<Rightarrow> None
         | Some (Exit c, m1) \<Rightarrow> Some (Exit c, m1)
         | Some (Return cs, m1) \<Rightarrow>
             if 0 < length cs then
               (case forEachComment cs [] (patterns m1) of
                  None \<Rightarrow> None
                | Some (found, ps) \<Rightarrow>
                    Some (Return (Some (case comment.user (last cs) of
                                          Some u \<Rightarrow> login u
                                        | None \<Rightarrow> ''N/A''), found),
                          m1\<lparr>patterns := ps\<rparr>))
             else Some (Return (None, []), m1))
      else Some (Return (None, []), m))"

text \<open>
  The body of the loop over the issues of a repository. \<open>issuesData\<close> holds each row
  together with the issue it was built from; the issue is not part of the row and is
  kept to state which issue a row comes from.
\<close>

definition processIssue ::
  "'w octokit \<Rightarrow> string \<Rightarrow> string list \<Rightarrow> repository \<Rightarrow> issue \<Rightarrow>
     (issue \<times> exportRecord) list \<Rightarrow> int set \<Rightarrow> 'w machine \<Rightarrow>
     (((issue \<times> exportRecord) list \<times> int set) outcome \<times> 'w machine) option" where
  "processIssue octo primaryLabel additionalLabels r i issuesData processedIssueIds m =
     (if pull_request i then Some (Return (issuesData, processedIssueIds), m)
      else if issue_id i \<in> processedIssueIds then Some (Return (issuesData, processedIssueIds), m)
      else if \<not> hasRelevantLabel primaryLabel additionalLabels i \<and> \<not> isKeywordFoundInText i
        then Some (Return (issuesData, insert (issue_id i) processedIssueIds), m)
      else
        (case scanComments octo r i m of
           None \<Rightarrow> None
         | Some (Exit c, m1) \<Rightarrow> Some (Exit c, m1)
         | Some (Return (lastCommenter, fromComments), m1) \<Rightarrow>
             (case findWcagScInText (issue.body i) (patterns m1) of
                None \<Rightarrow> None
              | Some (fromBody, ps1) \<Rightarrow>
                  (case findWcagScInText (Some (title i)) ps1 of
                     None \<Rightarrow> None
                   | Some (fromTitle, ps2) \<Rightarrow>
                       (let wcagScFound = Set_from (fromComments @ fromBody @ fromTitle);
                            row = \<lparr>WCAG_SC = (if 0 < length wcagScFound
                                                then Some (join ''; '' wcagScFound) else None),
                                   Issue_ID = repository.name r @ ''-'' @ showInt (number i),
                                   Issue_Title = title i,
                                   Issue_URL = html_url i,
                                   Project = repository.name r,
                                   Status = issue.state i,
                                   Priority = None,
                                   Component = None,
                                   Version = None,
                                   Reporter = (case issue.user i of
                                                 Some u \<Rightarrow> login u | None \<Rightarrow> ''N/A''),
                                   Created = created_at i,
                                   Updated = updated_at i,
                                   Comments = comments i,
                                   Has_Fork = (if fork r then ''Yes'' else ''No''),
                                   Last_Commenter = lastCommenter,
                                   Extracted_At = toISOString octo (api m1)\<rparr>
                        in Some (Return (issuesData @ [(i, row)],
                                         insert (issue_id i) processedIssueIds),
                                 m1\<lparr>patterns := ps2\<rparr>))))))"

text \<open>\<open>for (const issue of repoIssues)\<close>\<close>

fun forIssues ::
  "'w octokit \<Rightarrow> string \<Rightarrow> string list \<Rightarrow> repository \<Rightarrow> issue list \<Rightarrow>
     (issue \<times> exportRecord) list \<Rightarrow> int set \<Rightarrow> 'w machine \<Rightarrow>
     (((issue \<times> exportRecord) list \<times> int set) outcome \<times> 'w machine) option" where
  "forIssues octo primaryLabel additionalLabels r [] issuesData processedIssueIds m =
     Some (Return (issuesData, processedIssueIds), m)"
| "forIssues octo primaryLabel additionalLabels r (i # rest) issuesData processedIssueIds m =
     (case processIssue octo primaryLabel additionalLabels r i issuesData processedIssueIds m of
        None \<Rightarrow> None
      | Some (Exit c, m1) \<Rightarrow> Some (Exit c, m1)
      | Some (Return (issuesData1, processedIssueIds1), m1) \<Rightarrow>
          forIssues octo primaryLabel additionalLabels r rest issuesData1 processedIssueIds1 m1)"

text \<open>\<open>for (const repo of repositories)\<close>\<close>

fun forRepositories ::
  "'w octokit \<Rightarrow> string \<Rightarrow> string list \<Rightarrow> repository list \<Rightarrow>
     (issue \<times> exportRecord) list \<Rightarrow> int set \<Rightarrow> 'w machine \<Rightarrow>
     (((issue \<times> exportRecord) list \<times> int set) outcome \<times> 'w machine) option" where
  "forRepositories octo primaryLabel additionalLabels [] issuesData processedIssueIds m =
     Some (Return (issuesData, processedIssueIds), m)"
| "forRepositories octo primaryLabel additionalLabels (r # rest) issuesData processedIssueIds m =
     (case fetchAllPages (issues_listForRepo octo)
             (noParams\<lparr>owner := Some (login (repository.owner r)),
                       repo := Some (repository.name r),
                       state := Some ''all''\<rparr>) m of
        None \<Rightarrow> None
      | Some (Exit c, m1) \<Rightarrow> Some (Exit c, m1)
      | Some (Return repoIssues, m1) \<Rightarrow>
          (case forIssues octo primaryLabel additionalLabels r repoIssues
                  issuesData processedIssueIds m1 of
             None \<Rightarrow> None
           | Some (Exit c, m2) \<Rightarrow> Some (Exit c, m2)
           | Some (Return (issuesData2, processedIssueIds2), m2) \<Rightarrow>
               forRepositories octo primaryLabel additionalLabels rest
                 issuesData2 processedIssueIds2 m2))"

text \<open>
  The run. It returns the rows handed to the CSV writer, each with its source issue, or
  \<open>None\<close> when it returns early because the organization has no repository; writing
  the file is outside the model.
\<close>

definition gatherAccessibilityIssues ::
  "'w octokit \<Rightarrow> string \<Rightarrow> string \<Rightarrow> string list \<Rightarrow> 'w machine \<Rightarrow>
     ((issue \<times> exportRecord) list option outcome \<times> 'w machine) option" where
  "gatherAccessibilityIssues octo orgName primaryLabel additionalLabels m =
     (case fetchAllPages (repos_listForOrg octo)
             (noParams\<lparr>org := Some orgName, type' := Some ''public''\<rparr>) m of
        None \<Rightarrow> None
      | Some (Exit c, m1) \<Rightarrow> Some (Exit c, m1)
      | Some (Return repositories, m1) \<Rightarrow>
          if length repositories = 0 then Some (Return None, m1)
          else
            (case forRepositories octo primaryLabel additionalLabels repositories [] {} m1 of
               None \<Rightarrow> None
             | Some (Exit c, m2) \<Rightarrow> Some (Exit c, m2)
             | Some (Return (issuesData, processedIssueIds), m2) \<Rightarrow>
                 Some (Return (Some issuesData), m2)))"

section \<open>Auxiliary definitions for the proofs\<close>

text \<open>The least number of characters a sequence of nodes consumes.\<close>

fun minLen :: "node list \<Rightarrow> nat" where
  "minLen [] = 0"
| "minLen (One a # ns) = Suc (minLen ns)"
| "minLen (Rep a lo hi # ns) = lo + minLen ns"
| "minLen (WordBoundary # ns) = minLen ns"

text \<open>
  The matches that the loop over \<open>exec\<close> finds from cursor \<open>i\<close> on, in order, as long as
  each match moves the cursor forward.
\<close>

function allMatches :: "bool \<Rightarrow> node list \<Rightarrow> string \<Rightarrow> nat \<Rightarrow> string list" where
  "allMatches ic ns t i =
     (case scan ic ns t i of
        None \<Rightarrow> []
      | Some (j, e) \<Rightarrow>
          if i < e \<and> e \<le> length t then substring t j e # allMatches ic ns t e else [])"
  by pat_completeness auto
termination
  by (relation "measure (\<lambda>(ic, ns, t, i). length t - i)") auto

definition addMatch :: "string \<Rightarrow> string list \<Rightarrow> string list" where
  "addMatch m foundSc = (if m \<noteq> [] then Set_add (normalize m) foundSc else foundSc)"

text \<open>The tokens that the patterns \<open>ps\<close> add to \<open>foundSc\<close> on the text \<open>t\<close>.\<close>

fun foundBy :: "regexp list \<Rightarrow> string \<Rightarrow> string list \<Rightarrow> string list" where
  "foundBy [] t foundSc = foundSc"
| "foundBy (p # ps) t foundSc =
     foundBy ps t (fold addMatch (allMatches (ignoreCase p) (nodes p) t 0) foundSc)"

text \<open>The patterns \<open>ps\<close> with the cursor of the \<open>k\<close>-th pattern set to \<open>c k\<close>.\<close>

definition withCursors :: "(nat \<Rightarrow> nat) \<Rightarrow> regexp list \<Rightarrow> regexp list" where
  "withCursors c ps = map (\<lambda>(k, p). p\<lparr>lastIndex := c k\<rparr>) (enumerate 0 ps)"

text \<open>Calls of \<open>findWcagScInText\<close> one after the other, on the shared patterns.\<close>

fun findWcagScInTexts ::
  "string option list \<Rightarrow> regexp list \<Rightarrow> (string list list \<times> regexp list) option" where
  "findWcagScInTexts [] ps = Some ([], ps)"
| "findWcagScInTexts (text # texts) ps =
     (case findWcagScInText text ps of
        None \<Rightarrow> None
      | Some (found, ps1) \<Rightarrow>
          (case findWcagScInTexts texts ps1 of
             None \<Rightarrow> None
           | Some (founds, ps2) \<Rightarrow> Some (found # founds, ps2)))"

text \<open>The tokens of a text: what \<open>findWcagScInText\<close> returns, as a function of the text alone.\<close>

definition wcagTokens :: "string option \<Rightarrow> string list" where
  "wcagTokens text =
     (case text of None \<Rightarrow> [] | Some t \<Rightarrow> if t = [] then [] else foundBy WCAG_PATTERNS t [])"

text \<open>Whether a node can consume the character \<open>c\<close>.\<close>

fun nodeAccepts :: "bool \<Rightarrow> node \<Rightarrow> char \<Rightarrow> bool" where
  "nodeAccepts ic (One a) c = accepts ic a c"
| "nodeAccepts ic (Rep a lo hi) c = accepts ic a c"
| "nodeAccepts ic WordBoundary c = False"

text \<open>
  The inclusion rule in the words of the specification. Two labels are equal without
  regard to case when their lower-case forms are equal; a text contains the keyword
  without regard to case when some part of it, put in lower case, is the keyword.
\<close>

definition equalIgnoringCase :: "string \<Rightarrow> string \<Rightarrow> bool" where
  "equalIgnoringCase a b = (toLowerCase a = toLowerCase b)"

definition containsIgnoringCase :: "string \<Rightarrow> string \<Rightarrow> bool" where
  "containsIgnoringCase s keyword =
     (\<exists>pre mid post. s = pre @ mid @ post \<and> toLowerCase mid = keyword)"

definition inclusionRule :: "string \<Rightarrow> string list \<Rightarrow> issue \<Rightarrow> bool" where
  "inclusionRule primaryLabel additionalLabels i =
     ((\<exists>l \<in> set (labels i). \<exists>wanted \<in> set (primaryLabel # additionalLabels).
         equalIgnoringCase (label.name l) wanted) \<or>
      containsIgnoringCase (title i) ''accessibility'' \<or>
      (\<exists>b. issue.body i = Some b \<and> containsIgnoringCase b ''accessibility''))"

text \<open>The rows so far come from distinct, processed issues that are not pull requests.\<close>

definition rowsOk :: "(issue \<times> exportRecord) list \<Rightarrow> int set \<Rightarrow> bool" where
  "rowsOk issuesData processedIssueIds =
     (distinct (map (\<lambda>(src, row). issue_id src) issuesData) \<and>
      (\<forall>(src, row) \<in> set issuesData. issue_id src \<in> processedIssueIds \<and> \<not> pull_request src))"




section \<open>Example inputs\<close>

text \<open>
  A remote side that answers every listing with a fixed reply (the issues by repository
  name) and counts the calls made.
\<close>

definition staticOctokit ::
  "repository reply \<Rightarrow> (string option \<Rightarrow> issue reply) \<Rightarrow> comment reply \<Rightarrow> nat octokit" where
  "staticOctokit reposReply issuesReply commentsReply =
     \<lparr>repos_listForOrg = (\<lambda>ps page per_page w. (reposReply, Suc w)),
      issues_listForRepo = (\<lambda>ps page per_page w. (issuesReply (repo ps), Suc w)),
      issues_listComments = (\<lambda>ps page per_page w. (commentsReply, Suc w)),
      toISOString = (\<lambda>w. ''2024-02-03T04:05:06.000Z'')\<rparr>"

text \<open>
  Two listings of the numbers 0 to 239, with the pages requested so far as the state of
  the remote side. The first answers by page number: pages 1 and 2 hold 100 items each,
  page 3 holds 40, later pages are empty. The second answers by the order of the calls,
  whatever page is asked for: the first two calls get 100 items each, the third gets 40.
\<close>

definition pagedListing :: "(nat, nat list) apiCall" where
  "pagedListing ps page per_page w =
     (Response (Some (if page = 1 \<or> page = 2 then [100 * (page - 1)..<100 * page]
                      else if page = 3 then [200..<240] else [])),
      w @ [page])"

definition nthCallListing :: "(nat, nat list) apiCall" where
  "nthCallListing ps page per_page w =
     (Response (Some (if length w < 2 then [100 * length w..<100 * Suc (length w)]
                      else if length w = 2 then [200..<240] else [])),
      w @ [page])"

definition machineP :: "nat list machine" where
  "machineP = \<lparr>api = [], console = [], patterns = WCAG_PATTERNS\<rparr>"

definition machine0 :: "nat machine" where
  "machine0 = \<lparr>api = 0, console = [], patterns = WCAG_PATTERNS\<rparr>"

definition repoSite :: repository where
  "repoSite = \<lparr>name = ''site'', full_name = ''org/site'', owner = \<lparr>login = ''org''\<rparr>,
               fork = False\<rparr>"

definition repoDocs :: repository where
  "repoDocs = \<lparr>name = ''docs'', full_name = ''org/docs'', owner = \<lparr>login = ''org''\<rparr>,
               fork = True\<rparr>"

definition issueContrast :: issue where
  "issueContrast =
     \<lparr>issue_id = 1001, number = 7, title = ''Dim text'', body = Some ''see SC 1.4.3'',
      labels = [\<lparr>label.name = ''accessibility''\<rparr>], user = Some \<lparr>login = ''ann''\<rparr>,
      created_at = ''2024-01-01T00:00:00Z'', updated_at = ''2024-01-02T00:00:00Z'',
      comments = 0, state = ''open'', pull_request = False,
      html_url = ''https://github.com/org/site/issues/7''\<rparr>"

definition pullRequest8 :: issue where
  "pullRequest8 =
     issueContrast\<lparr>issue_id := 1002, number := 8, title := ''Fix accessibility of menus'',
                   pull_request := True,
                   html_url := ''https://github.com/org/site/pull/8''\<rparr>"

definition issueTypo :: issue where
  "issueTypo =
     issueContrast\<lparr>issue_id := 1003, number := 9, title := ''Typo in footer'', issue.body := None,
                   labels := [\<lparr>label.name = ''bug''\<rparr>],
                   html_url := ''https://github.com/org/site/issues/9''\<rparr>"

definition rowContrast :: exportRecord where
  "rowContrast =
     \<lparr>WCAG_SC = Some ''SC 1.4.3; 1.4.3'', Issue_ID = ''site-7'', Issue_Title = ''Dim text'',
      Issue_URL = ''https://github.com/org/site/issues/7'', Project = ''site'',
      Status = ''open'', Priority = None, Component = None, Version = None,
      Reporter = ''ann'', Created = ''2024-01-01T00:00:00Z'',
      Updated = ''2024-01-02T00:00:00Z'', Comments = 0, Has_Fork = ''No'',
      Last_Commenter = None, Extracted_At = ''2024-02-03T04:05:06.000Z''\<rparr>"








section \<open>The pattern matcher\<close>

declare allMatches.simps [simp del]
declare scan.simps [simp del]

lemma firstSome_in: "firstSome xs = Some e \<Longrightarrow> Some e \<in> set xs"
  by (induction xs rule: firstSome.induct) auto

lemma matcher_bounds:
  "matcher ic ns t i = Some e \<Longrightarrow> i \<le> length t \<Longrightarrow> i + minLen ns \<le> e \<and> e \<le> length t"
proof (induction ic ns t i arbitrary: e rule: matcher.induct)
  case (1 ic t i)
  then show ?case by simp
next
  case (2 ic a ns t i)
  then show ?case by (fastforce split: if_splits)
next
  case (3 ic ns t i)
  then show ?case by (simp split: if_splits)
next
  case (4 ic a lo hi ns t i)
  define run where "run = length (takeWhile (accepts ic a) (drop i t))"
  define k where "k = (case hi of None \<Rightarrow> run | Some h \<Rightarrow> min h run)"
  have run_le: "run \<le> length t - i"
    unfolding run_def using length_takeWhile_le [of "accepts ic a" "drop i t"] by simp
  have k_le: "k \<le> run" by (simp add: k_def split: option.splits)
  from "4.prems"(1) have "firstSome (map (\<lambda>j. matcher ic ns t (i + j)) (rev [lo..<Suc k])) = Some e"
    by (simp only: matcher.simps Let_def run_def k_def)
  then have "Some e \<in> set (map (\<lambda>j. matcher ic ns t (i + j)) (rev [lo..<Suc k]))"
    by (rule firstSome_in)
  then obtain j where j: "lo \<le> j" "j \<le> k" "matcher ic ns t (i + j) = Some e"
    by auto
  have bound: "i + j \<le> length t" using j(2) k_le run_le "4.prems"(2) by simp
  have jin: "j \<in> set (rev [lo..<Suc k])" using j(1,2) by auto
  have "i + j + minLen ns \<le> e \<and> e \<le> length t"
    by (rule "4.IH" [OF run_def k_def jin j(3) bound])
  then show ?case using j(1) by simp
qed

lemma scan_Some:
  "scan ic ns t i = Some (j, e) \<Longrightarrow>
     i \<le> j \<and> j \<le> length t \<and> matcher ic ns t j = Some e \<and>
     (\<forall>k. i \<le> k \<and> k < j \<longrightarrow> matcher ic ns t k = None)"
proof (induction ic ns t i rule: scan.induct)
  case (1 ic ns t i)
  show ?case
  proof (cases "matcher ic ns t i")
    case None
    with "1.prems" have le: "\<not> length t < i" and rec: "scan ic ns t (Suc i) = Some (j, e)"
      by (auto simp: scan.simps [of ic ns t i] split: if_splits)
    note IH = "1.IH" [OF le None rec]
    have "matcher ic ns t k = None" if "i \<le> k" "k < j" for k
    proof (cases "k = i")
      case True
      with None show ?thesis by simp
    next
      case False
      with that have "Suc i \<le> k" by simp
      with IH that show ?thesis by blast
    qed
    with IH show ?thesis by simp
  next
    case (Some e')
    with "1.prems" show ?thesis
      by (auto simp: scan.simps [of ic ns t i] split: if_splits)
  qed
qed

lemma scan_finds:
  "matcher ic ns t p \<noteq> None \<Longrightarrow> i \<le> p \<Longrightarrow> p \<le> length t \<Longrightarrow> \<exists>j e. scan ic ns t i = Some (j, e) \<and> j \<le> p"
proof (induction ic ns t i rule: scan.induct)
  case (1 ic ns t i)
  show ?case
  proof (cases "matcher ic ns t i")
    case None
    with "1.prems" have "i \<noteq> p" by auto
    with "1.prems" have "Suc i \<le> p" by simp
    from "1.IH" [OF _ None "1.prems"(1) this "1.prems"(3)] "1.prems" None show ?thesis
      by (simp add: scan.simps [of ic ns t i])
  next
    case (Some e')
    with "1.prems" show ?thesis
      by (simp add: scan.simps [of ic ns t i])
  qed
qed

lemma execLoop_total:
  assumes pos: "0 < minLen (nodes re)"
  shows "execLoop re t foundSc =
           Some (fold addMatch (allMatches (ignoreCase re) (nodes re) t (lastIndex re)) foundSc,
                 re\<lparr>lastIndex := 0\<rparr>)"
  using pos
proof (induction "length t - lastIndex re" arbitrary: re foundSc rule: less_induct)
  case less
  show ?case
  proof (cases "scan (ignoreCase re) (nodes re) t (lastIndex re)")
    case None
    then show ?thesis
      by (subst execLoop.simps) (simp add: exec_def allMatches.simps [of _ _ _ "lastIndex re"])
  next
    case (Some je)
    obtain j e where je: "je = (j, e)" by (cases je)
    from scan_Some [OF Some [unfolded je]]
    have j: "lastIndex re \<le> j" "j \<le> length t" and m: "matcher (ignoreCase re) (nodes re) t j = Some e"
      by auto
    from matcher_bounds [OF m j(2)] less.prems have e: "j < e" "e \<le> length t" by auto
    let ?re' = "re\<lparr>lastIndex := e\<rparr>"
    have "length t - lastIndex ?re' < length t - lastIndex re" using j e by simp
    from less.hyps [OF this, of "addMatch (substring t j e) foundSc"] less.prems
    have IH: "execLoop ?re' t (addMatch (substring t j e) foundSc) =
       Some (fold addMatch (allMatches (ignoreCase re) (nodes re) t e) (addMatch (substring t j e) foundSc),
             re\<lparr>lastIndex := 0\<rparr>)"
      by simp
    have "lastIndex re < e" using j e by simp
    then show ?thesis using Some je e IH
      by (subst execLoop.simps) (simp add: exec_def allMatches.simps [of _ _ _ "lastIndex re"] addMatch_def)
  qed
qed

lemma matcher_chars:
  "matcher ic ns t i = Some e \<Longrightarrow> i \<le> x \<Longrightarrow> x < e \<Longrightarrow> \<exists>n \<in> set ns. nodeAccepts ic n (t ! x)"
proof (induction ic ns t i arbitrary: e rule: matcher.induct)
  case (1 ic t i)
  then show ?case by simp
next
  case (2 ic a ns t i)
  from "2.prems"(1) have acc: "accepts ic a (t ! i)" and rest: "matcher ic ns t (Suc i) = Some e"
    and len: "i < length t"
    by (auto split: if_splits)
  show ?case
  proof (cases "x = i")
    case True
    with acc show ?thesis by auto
  next
    case False
    with "2.prems"(2) have "Suc i \<le> x" by simp
    from "2.IH" [OF _ rest this "2.prems"(3)] len acc show ?thesis by auto
  qed
next
  case (3 ic ns t i)
  from "3.prems"(1) have c: "(0 < i \<and> isWordAt t (i - 1)) \<noteq> isWordAt t i"
    and rest: "matcher ic ns t i = Some e"
    by (auto split: if_splits)
  from "3.IH" [OF c rest "3.prems"(2,3)] show ?case by auto
next
  case (4 ic a lo hi ns t i)
  define run where "run = length (takeWhile (accepts ic a) (drop i t))"
  define k where "k = (case hi of None \<Rightarrow> run | Some h \<Rightarrow> min h run)"
  have k_le: "k \<le> run" by (simp add: k_def split: option.splits)
  from "4.prems"(1) have "firstSome (map (\<lambda>j. matcher ic ns t (i + j)) (rev [lo..<Suc k])) = Some e"
    by (simp only: matcher.simps Let_def run_def k_def)
  then have "Some e \<in> set (map (\<lambda>j. matcher ic ns t (i + j)) (rev [lo..<Suc k]))"
    by (rule firstSome_in)
  then obtain j where j: "lo \<le> j" "j \<le> k" "matcher ic ns t (i + j) = Some e"
    by auto
  have jin: "j \<in> set (rev [lo..<Suc k])" using j(1,2) by auto
  show ?case
  proof (cases "x < i + j")
    case True
    then have xr: "x - i < run" using j(2) k_le "4.prems"(2) by simp
    then have "accepts ic a (takeWhile (accepts ic a) (drop i t) ! (x - i))"
      unfolding run_def by (metis nth_mem set_takeWhileD)
    moreover have "takeWhile (accepts ic a) (drop i t) ! (x - i) = drop i t ! (x - i)"
      using xr unfolding run_def by (rule takeWhile_nth)
    moreover have "x < length t"
      using xr length_takeWhile_le [of "accepts ic a" "drop i t"] "4.prems"(2)
      unfolding run_def by simp
    ultimately have "accepts ic a (t ! x)" using "4.prems"(2) by simp
    then show ?thesis by auto
  next
    case False
    then have "i + j \<le> x" by simp
    from "4.IH" [OF run_def k_def jin j(3) this "4.prems"(3)] show ?thesis by auto
  qed
qed

lemma firstSome_map_option:
  "firstSome (map (\<lambda>j. map_option g (f j)) js) = map_option g (firstSome (map f js))"
proof (induction js)
  case Nil
  then show ?case by simp
next
  case (Cons j js)
  then show ?case by (cases "f j") simp_all
qed

lemma matcher_append_left:
  "WordBoundary \<notin> set ns \<Longrightarrow>
     matcher ic ns (pre @ s) (length pre + i) = map_option (\<lambda>e. length pre + e) (matcher ic ns s i)"
proof (induction ic ns s i rule: matcher.induct)
  case (1 ic t i)
  then show ?case by simp
next
  case (2 ic a ns t i)
  then show ?case by (simp add: nth_append)
next
  case (3 ic ns t i)
  then show ?case by simp
next
  case (4 ic a lo hi ns t i)
  define run where "run = length (takeWhile (accepts ic a) (drop i t))"
  define k where "k = (case hi of None \<Rightarrow> run | Some h \<Rightarrow> min h run)"
  have IH: "matcher ic ns (pre @ t) (length pre + (i + j)) =
      map_option (\<lambda>e. length pre + e) (matcher ic ns t (i + j))" if "j \<in> set (rev [lo..<Suc k])" for j
    using "4.IH" [OF run_def k_def that] "4.prems" by simp
  have "map (\<lambda>j. matcher ic ns (pre @ t) (length pre + i + j)) (rev [lo..<Suc k]) =
        map (\<lambda>j. map_option (\<lambda>e. length pre + e) (matcher ic ns t (i + j))) (rev [lo..<Suc k])"
    by (rule map_cong [OF refl]) (use IH in \<open>simp add: add.assoc\<close>)
  then have "firstSome (map (\<lambda>j. matcher ic ns (pre @ t) (length pre + i + j)) (rev [lo..<Suc k])) =
     map_option (\<lambda>e. length pre + e) (firstSome (map (\<lambda>j. matcher ic ns t (i + j)) (rev [lo..<Suc k])))"
    by (simp only: firstSome_map_option)
  moreover have d: "drop (length pre + i) (pre @ t) = drop i t" by simp
  ultimately show ?case
    by (simp only: matcher.simps Let_def d run_def k_def)
qed


lemma toUpperChar_A_iff: "toUpperChar c = CHR ''A'' \<longleftrightarrow> c = CHR ''A'' \<or> c = CHR ''a''"
proof -
  define n where "n = (of_char c :: nat)"
  have c: "c = char_of n" by (simp add: n_def)
  have n: "n < 256" by (simp add: n_def)
  have [simp]: "of_char (char_of n :: char) = n" using n by simp
  show ?thesis
    unfolding toUpperChar_def Let_def c
    using n by (auto simp: char_of_eq_iff take_bit_eq_mod)
qed

lemma accepts_A_iff: "accepts True (Lit CHR ''A'') c \<longleftrightarrow> c = CHR ''A'' \<or> c = CHR ''a''"
proof -
  have "toUpperChar CHR ''A'' = CHR ''A''" by (simp add: toUpperChar_def)
  then show ?thesis using toUpperChar_A_iff [of c] by auto
qed

lemma firstSome_greedy:
  "lo \<le> k \<Longrightarrow> f k = Some e \<Longrightarrow> firstSome (map f (rev [lo..<Suc k])) = Some e"
  by simp

lemma matcher_Rep_greedy:
  assumes "length (takeWhile (accepts ic a) (drop i t)) = run"
    and "(case hi of None \<Rightarrow> run | Some h \<Rightarrow> min h run) = k"
    and "lo \<le> k" and "i + k = i'" and "matcher ic ns t i' = Some e"
  shows "matcher ic (Rep a lo hi # ns) t i = Some e"
  unfolding matcher.simps Let_def assms(1) assms(2)
  by (rule firstSome_greedy [OF assms(3)]) (simp only: assms(4) assms(5))

lemma matcher_One:
  assumes "matcher ic ns t i' = Some e" and "Suc i = i'"
    and "i < length t" and "accepts ic a (t ! i)"
  shows "matcher ic (One a # ns) t i = Some e"
  using assms by auto

section \<open>Properties of findWcagScInText\<close>

lemma forEachPattern_total:
  "\<forall>p \<in> set ps. 0 < minLen (nodes p) \<Longrightarrow>
     forEachPattern ps t foundSc = Some (foundBy ps t foundSc, map (\<lambda>p. p\<lparr>lastIndex := 0\<rparr>) ps)"
proof (induction ps arbitrary: foundSc)
  case Nil
  then show ?case by simp
next
  case (Cons p ps)
  have "0 < minLen (nodes (p\<lparr>lastIndex := 0\<rparr>))" using Cons.prems by simp
  from execLoop_total [OF this, of t foundSc]
  have step: "execLoop (p\<lparr>lastIndex := 0\<rparr>) t foundSc =
      Some (fold addMatch (allMatches (ignoreCase p) (nodes p) t 0) foundSc, p\<lparr>lastIndex := 0\<rparr>)"
    by simp
  from Cons.prems have "\<forall>p \<in> set ps. 0 < minLen (nodes p)" by simp
  from Cons.IH [OF this] step show ?case by simp
qed

lemma foundBy_cong:
  "map nodes ps = map nodes qs \<Longrightarrow> map ignoreCase ps = map ignoreCase qs \<Longrightarrow>
     foundBy ps t foundSc = foundBy qs t foundSc"
proof (induction ps arbitrary: qs foundSc)
  case Nil
  then show ?case by simp
next
  case (Cons p ps)
  then obtain q qs' where qs: "qs = q # qs'" by (cases qs) auto
  with Cons.prems have "nodes p = nodes q" "ignoreCase p = ignoreCase q"
    "map nodes ps = map nodes qs'" "map ignoreCase ps = map ignoreCase qs'" by auto
  with Cons.IH [of qs'] qs show ?case by simp
qed

lemma enumerate_cursors:
  "map nodes (map (\<lambda>(k, p). p\<lparr>lastIndex := c k\<rparr>) (enumerate n ps)) = map nodes ps"
  "map ignoreCase (map (\<lambda>(k, p). p\<lparr>lastIndex := c k\<rparr>) (enumerate n ps)) = map ignoreCase ps"
  "map (\<lambda>p. p\<lparr>lastIndex := 0\<rparr>) (map (\<lambda>(k, p). p\<lparr>lastIndex := c k\<rparr>) (enumerate n ps)) =
     map (\<lambda>p. p\<lparr>lastIndex := 0\<rparr>) ps"
  by (induction ps arbitrary: n; simp)+

lemma withCursors_fields:
  "map nodes (withCursors c ps) = map nodes ps"
  "map ignoreCase (withCursors c ps) = map ignoreCase ps"
  "map (\<lambda>p. p\<lparr>lastIndex := 0\<rparr>) (withCursors c ps) = map (\<lambda>p. p\<lparr>lastIndex := 0\<rparr>) ps"
  unfolding withCursors_def by (rule enumerate_cursors)+

lemma WCAG_PATTERNS_minLen: "\<forall>p \<in> set WCAG_PATTERNS. 0 < minLen (nodes p)"
  by (simp add: WCAG_PATTERNS_def)

lemma WCAG_PATTERNS_reset: "map (\<lambda>p. p\<lparr>lastIndex := 0\<rparr>) WCAG_PATTERNS = WCAG_PATTERNS"
  by (simp add: WCAG_PATTERNS_def)

lemma findWcagScInText_withCursors:
  "findWcagScInText tx (withCursors c WCAG_PATTERNS) =
     Some (wcagTokens tx,
           if tx = None \<or> tx = Some [] then withCursors c WCAG_PATTERNS else WCAG_PATTERNS)"
proof (cases "tx = None \<or> tx = Some []")
  case True
  then show ?thesis by (auto simp: findWcagScInText_def wcagTokens_def)
next
  case False
  then obtain t where t: "tx = Some t" "t \<noteq> []" by (cases tx) auto
  have "\<forall>p \<in> set (withCursors c WCAG_PATTERNS). 0 < minLen (nodes p)"
    using WCAG_PATTERNS_minLen withCursors_fields(1) [of c WCAG_PATTERNS]
    by (metis (no_types, lifting) in_set_conv_nth length_map nth_map)
  from forEachPattern_total [OF this, of t "[]"]
  show ?thesis using t
    by (simp add: findWcagScInText_def wcagTokens_def withCursors_fields(3) WCAG_PATTERNS_reset
        foundBy_cong [OF withCursors_fields(1) withCursors_fields(2)])
qed

lemma withCursors_zero: "withCursors (\<lambda>k. 0) WCAG_PATTERNS = WCAG_PATTERNS"
  by (simp add: withCursors_def WCAG_PATTERNS_def enumerate_eq_zip upt_rec)

lemma findWcagScInText_initial:
  "findWcagScInText tx WCAG_PATTERNS = Some (wcagTokens tx, WCAG_PATTERNS)"
  using findWcagScInText_withCursors [of tx "\<lambda>k. 0"] by (simp add: withCursors_zero)

lemma findWcagScInTexts_initial:
  "findWcagScInTexts texts WCAG_PATTERNS = Some (map wcagTokens texts, WCAG_PATTERNS)"
  by (induction texts) (simp_all add: findWcagScInText_initial)

lemma wcag_at_occurrence:
  assumes "post = [] \<or> hd post \<notin> {CHR ''A'', CHR ''a''}"
  shows "matcher True (nodes (WCAG_PATTERNS ! 0)) (pre @ ''WCAG 2.1 AA'' @ post) (length pre) =
           Some (length pre + 11)"
proof -
  let ?t = "''WCAG 2.1 AA'' @ post"
  let ?A = "Rep (Lit CHR ''A'') 1 (Some 3)"
  have tw: "takeWhile (accepts True (Lit CHR ''A'')) post = []"
    using assms by (cases post) (simp_all add: accepts_A_iff del: accepts.simps)
  have dr: "drop 9 ?t = ''AA'' @ post" by simp
  have tk: "takeWhile (accepts True (Lit CHR ''A'')) (''AA'' @ post) =
      ''AA'' @ takeWhile (accepts True (Lit CHR ''A'')) post"
    by (simp add: accepts_A_iff del: accepts.simps)
  have run9: "length (takeWhile (accepts True (Lit CHR ''A'')) (drop 9 ?t)) = 2"
    unfolding dr tk tw by simp
  have run8: "length (takeWhile (accepts True (Cls Space)) (drop 8 ?t)) = 1"
    by (simp add: isWhiteSpace_def)
  have run5: "length (takeWhile (accepts True (Cls DigitOrDot)) (drop 5 ?t)) = 3"
    by (simp add: isDigit_def)
  have run4: "length (takeWhile (accepts True (Cls Space)) (drop 4 ?t)) = 1"
    by (simp add: isWhiteSpace_def isDigit_def)
  have s11: "matcher True [] ?t 11 = Some 11" by simp
  have s9: "matcher True [?A] ?t 9 = Some 11"
    by (rule matcher_Rep_greedy [OF run9 _ _ _ s11]) simp_all
  have s8: "matcher True [Rep (Cls Space) 0 None, ?A] ?t 8 = Some 11"
    by (rule matcher_Rep_greedy [OF run8 _ _ _ s9]) simp_all
  have s5: "matcher True [Rep (Cls DigitOrDot) 1 None, Rep (Cls Space) 0 None, ?A] ?t 5 = Some 11"
    by (rule matcher_Rep_greedy [OF run5 _ _ _ s8]) simp_all
  have s4: "matcher True [Rep (Cls Space) 0 None, Rep (Cls DigitOrDot) 1 None,
      Rep (Cls Space) 0 None, ?A] ?t 4 = Some 11"
    by (rule matcher_Rep_greedy [OF run4 _ _ _ s5]) simp_all
  have s3: "matcher True [One (Lit CHR ''G''), Rep (Cls Space) 0 None, Rep (Cls DigitOrDot) 1 None,
      Rep (Cls Space) 0 None, ?A] ?t 3 = Some 11"
    by (rule matcher_One [OF s4]) (simp_all add: toUpperChar_def)
  have s2: "matcher True [One (Lit CHR ''A''), One (Lit CHR ''G''), Rep (Cls Space) 0 None,
      Rep (Cls DigitOrDot) 1 None, Rep (Cls Space) 0 None, ?A] ?t 2 = Some 11"
    by (rule matcher_One [OF s3]) (simp_all add: toUpperChar_def)
  have s1: "matcher True [One (Lit CHR ''C''), One (Lit CHR ''A''), One (Lit CHR ''G''),
      Rep (Cls Space) 0 None, Rep (Cls DigitOrDot) 1 None, Rep (Cls Space) 0 None, ?A] ?t 1 = Some 11"
    by (rule matcher_One [OF s2]) (simp_all add: toUpperChar_def)
  have s0: "matcher True [One (Lit CHR ''W''), One (Lit CHR ''C''), One (Lit CHR ''A''),
      One (Lit CHR ''G''), Rep (Cls Space) 0 None, Rep (Cls DigitOrDot) 1 None,
      Rep (Cls Space) 0 None, ?A] ?t 0 = Some 11"
    by (rule matcher_One [OF s1]) (simp_all add: toUpperChar_def)
  have ns: "nodes (WCAG_PATTERNS ! 0) = [One (Lit CHR ''W''), One (Lit CHR ''C''), One (Lit CHR ''A''),
      One (Lit CHR ''G''), Rep (Cls Space) 0 None, Rep (Cls DigitOrDot) 1 None,
      Rep (Cls Space) 0 None, ?A]"
    by (simp add: WCAG_PATTERNS_def)
  have "matcher True (nodes (WCAG_PATTERNS ! 0)) (pre @ ?t) (length pre + 0) =
      map_option (\<lambda>e. length pre + e) (matcher True (nodes (WCAG_PATTERNS ! 0)) ?t 0)"
    by (rule matcher_append_left) (simp add: ns)
  then show ?thesis unfolding ns s0 by simp
qed

lemma wcag_no_overlap:
  assumes m: "matcher True (nodes (WCAG_PATTERNS ! 0)) t j = Some e"
    and jp: "j < p" and W: "t ! p = CHR ''W''"
  shows "e \<le> p"
proof (rule ccontr)
  assume "\<not> e \<le> p"
  then have pe: "p < e" by simp
  let ?rest = "[One (Lit CHR ''C''), One (Lit CHR ''A''), One (Lit CHR ''G''),
                Rep (Cls Space) 0 None, Rep (Cls DigitOrDot) 1 None, Rep (Cls Space) 0 None,
                Rep (Lit CHR ''A'') 1 (Some 3)]"
  from m have "matcher True ?rest t (Suc j) = Some e"
    by (simp add: WCAG_PATTERNS_def split: if_splits)
  from matcher_chars [OF this, of p] jp pe
  have "\<exists>n \<in> set ?rest. nodeAccepts True n (t ! p)" by simp
  then show False
    unfolding W by (simp add: toUpperChar_def isWhiteSpace_def isDigit_def Let_def)
qed


lemma wcag_reached:
  assumes occ: "matcher True (nodes (WCAG_PATTERNS ! 0)) t p = Some (p + 11)"
    and W: "t ! p = CHR ''W''" and len: "p + 11 \<le> length t"
  shows "i \<le> p \<Longrightarrow> substring t p (p + 11) \<in> set (allMatches True (nodes (WCAG_PATTERNS ! 0)) t i)"
proof (induction "p - i" arbitrary: i rule: less_induct)
  case less
  let ?ns = "nodes (WCAG_PATTERNS ! 0)"
  from occ have "matcher True ?ns t p \<noteq> None" by simp
  from scan_finds [OF this less.prems] len
  obtain j e where sc: "scan True ?ns t i = Some (j, e)" and jp: "j \<le> p" by auto
  from scan_Some [OF sc] have ij: "i \<le> j" and jl: "j \<le> length t"
    and m: "matcher True ?ns t j = Some e" by auto
  have "0 < minLen ?ns" by (simp add: WCAG_PATTERNS_def)
  with matcher_bounds [OF m jl] have je: "j < e" and el: "e \<le> length t" by auto
  have unfold: "allMatches True ?ns t i = substring t j e # allMatches True ?ns t e"
    using sc ij je el by (simp add: allMatches.simps [of True ?ns t i])
  show ?case
  proof (cases "j = p")
    case True
    with m occ have "e = p + 11" by simp
    with True unfold show ?thesis by simp
  next
    case False
    with jp have "j < p" by simp
    from wcag_no_overlap [OF m this W] have ep: "e \<le> p" .
    have "p - e < p - i" using ij je ep by simp
    from less.hyps [OF this ep] unfold show ?thesis by simp
  qed
qed

lemma addMatch_keeps: "x \<in> set foundSc \<Longrightarrow> x \<in> set (addMatch m foundSc)"
  by (simp add: addMatch_def Set_add_def)

lemma fold_addMatch_keeps: "x \<in> set foundSc \<Longrightarrow> x \<in> set (fold addMatch ms foundSc)"
  by (induction ms arbitrary: foundSc) (simp_all add: addMatch_keeps)

lemma fold_addMatch_adds:
  "m \<in> set ms \<Longrightarrow> m \<noteq> [] \<Longrightarrow> normalize m \<in> set (fold addMatch ms foundSc)"
proof (induction ms arbitrary: foundSc)
  case Nil
  then show ?case by simp
next
  case (Cons a ms)
  show ?case
  proof (cases "m = a")
    case True
    with Cons.prems have "normalize m \<in> set (addMatch a foundSc)"
      by (simp add: addMatch_def Set_add_def)
    then show ?thesis by (simp add: fold_addMatch_keeps)
  next
    case False
    with Cons.prems have "m \<in> set ms" by simp
    from Cons.IH [OF this Cons.prems(2)] show ?thesis by simp
  qed
qed

lemma foundBy_keeps: "x \<in> set foundSc \<Longrightarrow> x \<in> set (foundBy ps t foundSc)"
  by (induction ps arbitrary: foundSc) (simp_all add: fold_addMatch_keeps)

lemma foundBy_adds:
  "p \<in> set ps \<Longrightarrow> m \<in> set (allMatches (ignoreCase p) (nodes p) t 0) \<Longrightarrow> m \<noteq> [] \<Longrightarrow>
     normalize m \<in> set (foundBy ps t foundSc)"
proof (induction ps arbitrary: foundSc)
  case Nil
  then show ?case by simp
next
  case (Cons q ps)
  show ?case
  proof (cases "p = q")
    case True
    with Cons.prems have "normalize m \<in> set (fold addMatch (allMatches (ignoreCase q) (nodes q) t 0) foundSc)"
      by (simp add: fold_addMatch_adds)
    then show ?thesis by (simp add: foundBy_keeps)
  next
    case False
    with Cons.prems have "p \<in> set ps" by simp
    from Cons.IH [OF this Cons.prems(2,3)] show ?thesis by simp
  qed
qed

lemma aa_found:
  assumes occ: "matcher True (nodes (WCAG_PATTERNS ! 3)) t p \<noteq> None" and len: "p \<le> length t"
  shows "\<exists>m \<in> set (allMatches True (nodes (WCAG_PATTERNS ! 3)) t 0). m \<noteq> [] \<and> normalize m = ''AA''"
proof -
  let ?ns = "nodes (WCAG_PATTERNS ! 3)"
  from scan_finds [OF occ _ len, of 0]
  obtain j e where sc: "scan True ?ns t 0 = Some (j, e)" by auto
  from scan_Some [OF sc] have jl: "j \<le> length t"
    and m: "matcher True ?ns t j = Some e" by auto
  from m have e: "e = Suc (Suc j)" and l: "Suc j < length t"
    and a0: "accepts True (Lit CHR ''A'') (t ! j)" and a1: "accepts True (Lit CHR ''A'') (t ! Suc j)"
    by (auto simp: WCAG_PATTERNS_def split: if_splits)
  have unfold: "allMatches True ?ns t 0 = substring t j e # allMatches True ?ns t e"
    using sc e l by (simp add: allMatches.simps [of True ?ns t 0])
  have sub: "substring t j e = [t ! j, t ! Suc j]"
    using e l by (simp add: substring_def take_Suc_conv_app_nth Cons_nth_drop_Suc [symmetric])
  have "normalize [t ! j, t ! Suc j] = ''AA''"
    using a0 a1 unfolding accepts_A_iff
    by (auto simp: normalize_def toUpperCase_def toUpperChar_def trim_def isWhiteSpace_def
        char_of_eq_iff take_bit_eq_mod)
  with unfold sub show ?thesis by simp
qed


lemma normalize_wcag: "normalize ''WCAG 2.1 AA'' = ''WCAG 2.1 AA''"
  by code_simp

text \<open>
  C9. For an absent text (null or undefined) and for the empty string,
  \<open>findWcagScInText\<close> returns the empty list: it returns (it neither raises nor runs
  forever), and it leaves the patterns as they are.
\<close>

theorem findWcagScInText_absent_or_empty:
  "findWcagScInText None ps = Some ([], ps) \<and> findWcagScInText (Some []) ps = Some ([], ps)"
  by (simp add: findWcagScInText_def)

text \<open>
  C10. \<open>findWcagScInText\<close> is stateless across calls. Whatever the cursors of the
  shared patterns are when it is called, it returns, with the result it gives on the
  patterns as first loaded; and after any sequence of earlier calls on other texts, the
  call on a text returns what a first call on that text returns. The cursor of each
  pattern is set to 0 before its scan, so the cursor left by an earlier call is never read.
\<close>

theorem findWcagScInText_stateless:
  "(\<exists>found ps1 ps2.
      findWcagScInText text WCAG_PATTERNS = Some (found, ps1) \<and>
      findWcagScInText text (withCursors c WCAG_PATTERNS) = Some (found, ps2)) \<and>
   (\<exists>founds ps found ps1 ps2.
      findWcagScInTexts prior WCAG_PATTERNS = Some (founds, ps) \<and>
      findWcagScInText text ps = Some (found, ps1) \<and>
      findWcagScInText text WCAG_PATTERNS = Some (found, ps2))"
  by (simp add: findWcagScInText_initial findWcagScInText_withCursors findWcagScInTexts_initial)


text \<open>
  C5, as stated: every text that contains \<open>WCAG 2.1 AA\<close> yields both the token
  \<open>WCAG 2.1 AA\<close> and the token \<open>AA\<close>. The text \<open>WCAG 2.1 AAA\<close> contains
  \<open>WCAG 2.1 AA\<close>, but the first pattern takes up to three letters A, so its match is
  \<open>WCAG 2.1 AAA\<close> and the token \<open>WCAG 2.1 AA\<close> is not in the result.
\<close>

theorem findWcagScInText_wcag_21_aaa_counterexample:
  "str_includes ''WCAG 2.1 AAA'' ''WCAG 2.1 AA'' \<and>
   findWcagScInText (Some ''WCAG 2.1 AAA'') WCAG_PATTERNS =
     Some ([''WCAG 2.1 AAA'', ''AA'', ''A''], WCAG_PATTERNS) \<and>
   ''WCAG 2.1 AA'' \<notin> set [''WCAG 2.1 AAA'', ''AA'', ''A'']"
  by code_simp


text \<open>
  C5, amended: for every text that contains \<open>WCAG 2.1 AA\<close>, \<open>findWcagScInText\<close>
  returns, and its result holds the token \<open>AA\<close>; it holds the token \<open>WCAG 2.1 AA\<close>
  as well when the occurrence ends the text or is followed by a character other than
  the letter A in either case.
\<close>

theorem findWcagScInText_wcag_21_aa:
  "\<exists>found ps.
     findWcagScInText (Some (pre @ ''WCAG 2.1 AA'' @ post)) WCAG_PATTERNS = Some (found, ps) \<and>
     ''AA'' \<in> set found \<and>
     (post = [] \<or> hd post \<notin> {CHR ''A'', CHR ''a''} \<longrightarrow> ''WCAG 2.1 AA'' \<in> set found)"
proof -
  let ?t = "pre @ ''WCAG 2.1 AA'' @ post"
  let ?p = "length pre"
  have ne: "?t \<noteq> []" by simp
  have run: "findWcagScInText (Some ?t) WCAG_PATTERNS = Some (foundBy WCAG_PATTERNS ?t [], WCAG_PATTERNS)"
    using findWcagScInText_initial [of "Some ?t"] by (simp add: wcagTokens_def)
  have p3: "WCAG_PATTERNS ! 3 \<in> set WCAG_PATTERNS" and ic3: "ignoreCase (WCAG_PATTERNS ! 3) = True"
    and p0: "WCAG_PATTERNS ! 0 \<in> set WCAG_PATTERNS" and ic0: "ignoreCase (WCAG_PATTERNS ! 0) = True"
    by (simp_all add: WCAG_PATTERNS_def)
  have aa2: "matcher True (nodes (WCAG_PATTERNS ! 3)) (''AA'' @ post) 0 = Some 2"
    by (simp add: WCAG_PATTERNS_def toUpperChar_def)
  have app: "matcher True (nodes (WCAG_PATTERNS ! 3)) ((pre @ ''WCAG 2.1 '') @ (''AA'' @ post))
        (length (pre @ ''WCAG 2.1 '') + 0) =
      map_option (\<lambda>e. length (pre @ ''WCAG 2.1 '') + e)
        (matcher True (nodes (WCAG_PATTERNS ! 3)) (''AA'' @ post) 0)"
    by (rule matcher_append_left) (simp add: WCAG_PATTERNS_def)
  have occ3: "matcher True (nodes (WCAG_PATTERNS ! 3)) ((pre @ ''WCAG 2.1 '') @ (''AA'' @ post))
        (length (pre @ ''WCAG 2.1 '') + 0) \<noteq> None"
    unfolding app aa2 by simp
  have len3: "length (pre @ ''WCAG 2.1 '') + 0 \<le> length ((pre @ ''WCAG 2.1 '') @ (''AA'' @ post))"
    by simp
  from aa_found [OF occ3 len3]
  obtain m where m: "m \<in> set (allMatches True (nodes (WCAG_PATTERNS ! 3)) ?t 0)" "m \<noteq> []"
    "normalize m = ''AA''" by auto
  from foundBy_adds [OF p3, of m ?t "[]"] m ic3
  have aa: "''AA'' \<in> set (foundBy WCAG_PATTERNS ?t [])" by simp
  have wcag: "''WCAG 2.1 AA'' \<in> set (foundBy WCAG_PATTERNS ?t [])"
    if "post = [] \<or> hd post \<notin> {CHR ''A'', CHR ''a''}"
  proof -
    from wcag_at_occurrence [OF that, of pre]
    have occ: "matcher True (nodes (WCAG_PATTERNS ! 0)) ?t ?p = Some (?p + 11)" .
    have W: "?t ! ?p = CHR ''W''" by simp
    have "substring ?t ?p (?p + 11) \<in> set (allMatches True (nodes (WCAG_PATTERNS ! 0)) ?t 0)"
      by (rule wcag_reached [OF occ W]) simp_all
    moreover have "substring ?t ?p (?p + 11) = ''WCAG 2.1 AA''"
      by (simp add: substring_def)
    ultimately have "''WCAG 2.1 AA'' \<in> set (allMatches (ignoreCase (WCAG_PATTERNS ! 0)) (nodes (WCAG_PATTERNS ! 0)) ?t 0)"
      using ic0 by simp
    from foundBy_adds [OF p0 this, of "[]"] show ?thesis
      by (simp add: normalize_wcag)
  qed
  from run aa wcag show ?thesis by blast
qed


theorem findWcagScInText_wcag_21_aa_witness:
  "\<exists>found ps.
     findWcagScInText (Some ''see WCAG 2.1 AA please'') WCAG_PATTERNS = Some (found, ps) \<and>
     ''AA'' \<in> set found \<and> ''WCAG 2.1 AA'' \<in> set found"
  using findWcagScInText_wcag_21_aa [of "''see ''" "'' please''"] by simp


section \<open>The inclusion rule\<close>

lemma str_includes_iff: "str_includes s sub \<longleftrightarrow> (\<exists>pre post. s = pre @ sub @ post)"
proof (induction s)
  case Nil
  then show ?case by auto
next
  case (Cons c s)
  show ?case
  proof
    assume "str_includes (c # s) sub"
    then consider "take (length sub) (c # s) = sub" | "str_includes s sub" by auto
    then show "\<exists>pre post. c # s = pre @ sub @ post"
    proof cases
      case 1
      then have "c # s = [] @ sub @ drop (length sub) (c # s)"
        by (metis append_Nil append_take_drop_id)
      then show ?thesis by blast
    next
      case 2
      with Cons.IH obtain pre post where "s = pre @ sub @ post" by auto
      then have "c # s = (c # pre) @ sub @ post" by simp
      then show ?thesis by blast
    qed
  next
    assume "\<exists>pre post. c # s = pre @ sub @ post"
    then obtain pre post where eq: "c # s = pre @ sub @ post" by auto
    show "str_includes (c # s) sub"
    proof (cases pre)
      case Nil
      with eq have "take (length sub) (c # s) = sub" by simp
      then show ?thesis by simp
    next
      case (Cons d pre')
      with eq have "s = pre' @ sub @ post" by simp
      with Cons.IH have "str_includes s sub" by auto
      then show ?thesis by simp
    qed
  qed
qed

lemma includes_lower_iff:
  "str_includes (toLowerCase s) keyword \<longleftrightarrow> containsIgnoringCase s keyword"
proof
  assume "str_includes (toLowerCase s) keyword"
  then obtain a b where "map toLowerChar s = a @ (keyword @ b)"
    by (auto simp: str_includes_iff toLowerCase_def)
  then have "\<exists>us vs. s = us @ vs \<and> a = map toLowerChar us \<and> keyword @ b = map toLowerChar vs"
    by (simp only: map_eq_append_conv)
  then obtain pre rest where s: "s = pre @ rest" and r: "keyword @ b = map toLowerChar rest"
    by blast
  from r [symmetric]
  have "\<exists>us vs. rest = us @ vs \<and> keyword = map toLowerChar us \<and> b = map toLowerChar vs"
    by (simp only: map_eq_append_conv)
  then obtain mid post where "rest = mid @ post" "map toLowerChar mid = keyword"
    by metis
  with s show "containsIgnoringCase s keyword"
    by (auto simp: containsIgnoringCase_def toLowerCase_def)
next
  assume "containsIgnoringCase s keyword"
  then obtain pre mid post where "s = pre @ mid @ post" "toLowerCase mid = keyword"
    by (auto simp: containsIgnoringCase_def)
  then have "toLowerCase s = toLowerCase pre @ keyword @ toLowerCase post"
    by (simp add: toLowerCase_def)
  then show "str_includes (toLowerCase s) keyword"
    unfolding str_includes_iff by blast
qed

lemma hasRelevantLabel_iff:
  "hasRelevantLabel primaryLabel additionalLabels i \<longleftrightarrow>
     (\<exists>l \<in> set (labels i). \<exists>wanted \<in> set (primaryLabel # additionalLabels).
        equalIgnoringCase (label.name l) wanted)"
  unfolding hasRelevantLabel_def equalIgnoringCase_def list_ex_iff Let_def set_map image_iff
  by (simp only: set_simps bex_simps ball_simps insert_iff) metis

lemma not_contains_empty: "\<not> containsIgnoringCase [] ''accessibility''"
  by (simp add: containsIgnoringCase_def toLowerCase_def)

lemma isKeywordFoundInText_iff:
  "isKeywordFoundInText i \<longleftrightarrow>
     containsIgnoringCase (title i) ''accessibility'' \<or>
     (\<exists>b. issue.body i = Some b \<and> containsIgnoringCase b ''accessibility'')"
  using not_contains_empty
  by (auto simp: isKeywordFoundInText_def includes_lower_iff split: option.splits)

lemma processIssue_excluded:
  "\<not> pull_request i \<Longrightarrow> issue_id i \<notin> processedIssueIds \<Longrightarrow>
   \<not> hasRelevantLabel primaryLabel additionalLabels i \<Longrightarrow> \<not> isKeywordFoundInText i \<Longrightarrow>
   processIssue octo primaryLabel additionalLabels r i issuesData processedIssueIds m =
     Some (Return (issuesData, insert (issue_id i) processedIssueIds), m)"
  by (simp add: processIssue_def)

lemma processIssue_included:
  "\<not> pull_request i \<Longrightarrow> issue_id i \<notin> processedIssueIds \<Longrightarrow>
   hasRelevantLabel primaryLabel additionalLabels i \<or> isKeywordFoundInText i \<Longrightarrow>
   processIssue octo primaryLabel additionalLabels r i issuesData processedIssueIds m =
     Some (Return (issuesData', processedIssueIds'), m') \<Longrightarrow>
   \<exists>row. issuesData' = issuesData @ [(i, row)]"
  unfolding processIssue_def Let_def
  by (auto split: if_splits option.splits outcome.splits prod.splits)

text \<open>
  C4. The two tests of the script, taken together, are the inclusion rule: an issue
  passes when one of its labels equals the primary label or an additional label without
  regard to case, or when its title or its body contains \<open>accessibility\<close> without
  regard to case. In particular an issue that carries the label \<open>Accessibility\<close>
  passes for the primary label \<open>accessibility\<close>. For an issue that is not a pull
  request and whose identifier has not been processed, the scan adds no row when the
  rule fails, and adds one row for it, if it returns, when the rule holds.
\<close>

theorem inclusion_rule:
  "(hasRelevantLabel primaryLabel additionalLabels i \<or> isKeywordFoundInText i) =
     inclusionRule primaryLabel additionalLabels i \<and>
   hasRelevantLabel ''accessibility'' additionalLabels
     (i\<lparr>labels := before @ [\<lparr>label.name = ''Accessibility''\<rparr>] @ after\<rparr>) \<and>
   (\<not> pull_request i \<and> issue_id i \<notin> processedIssueIds \<and>
    \<not> inclusionRule primaryLabel additionalLabels i \<longrightarrow>
      processIssue octo primaryLabel additionalLabels r i issuesData processedIssueIds m =
        Some (Return (issuesData, insert (issue_id i) processedIssueIds), m)) \<and>
   (\<not> pull_request i \<and> issue_id i \<notin> processedIssueIds \<and>
    inclusionRule primaryLabel additionalLabels i \<and>
    processIssue octo primaryLabel additionalLabels r i issuesData processedIssueIds m =
      Some (Return (issuesData', processedIssueIds'), m') \<longrightarrow>
      (\<exists>row. issuesData' = issuesData @ [(i, row)]))"
proof -
  have rule: "(hasRelevantLabel primaryLabel additionalLabels i \<or> isKeywordFoundInText i) =
     inclusionRule primaryLabel additionalLabels i"
    unfolding hasRelevantLabel_iff isKeywordFoundInText_iff inclusionRule_def by blast
  have "toLowerCase ''Accessibility'' = toLowerCase ''accessibility''"
    by code_simp
  then have mixed: "hasRelevantLabel ''accessibility'' additionalLabels
     (i\<lparr>labels := before @ [\<lparr>label.name = ''Accessibility''\<rparr>] @ after\<rparr>)"
    unfolding hasRelevantLabel_iff by (simp add: equalIgnoringCase_def)
  from rule mixed show ?thesis
    using processIssue_excluded [of i processedIssueIds primaryLabel additionalLabels octo r issuesData m]
      processIssue_included [of i processedIssueIds primaryLabel additionalLabels octo r issuesData m
        issuesData' processedIssueIds' m']
    by blast
qed

theorem inclusion_rule_witness:
  "\<not> pull_request issueTypo \<and> issue_id issueTypo \<notin> {} \<and>
   \<not> inclusionRule ''accessibility'' [] issueTypo \<and>
   processIssue (staticOctokit (Response (Some [repoSite]))
        (\<lambda>name. Response (Some [issueTypo, issueContrast])) (Response (Some [])))
      ''accessibility'' [] repoSite issueTypo [] {} machine0 =
     Some (Return ([], {1003}), machine0) \<and>
   \<not> pull_request issueContrast \<and>
   inclusionRule ''accessibility'' [] issueContrast \<and>
   processIssue (staticOctokit (Response (Some [repoSite]))
        (\<lambda>name. Response (Some [issueTypo, issueContrast])) (Response (Some [])))
      ''accessibility'' [] repoSite issueContrast [] {} machine0 =
     Some (Return ([(issueContrast, rowContrast)], {1001}), machine0)"
proof -
  let ?octo = "staticOctokit (Response (Some [repoSite]))
        (\<lambda>name. Response (Some [issueTypo, issueContrast])) (Response (Some []))"
  have typo: "\<not> (hasRelevantLabel ''accessibility'' [] issueTypo \<or> isKeywordFoundInText issueTypo)"
    by code_simp
  have contrast: "hasRelevantLabel ''accessibility'' [] issueContrast \<or> isKeywordFoundInText issueContrast"
    by code_simp
  have npr: "\<not> pull_request issueTypo" "\<not> pull_request issueContrast" by code_simp+
  have run: "processIssue ?octo ''accessibility'' [] repoSite issueContrast [] {} machine0 =
     Some (Return ([(issueContrast, rowContrast)], {1001}), machine0)"
    by code_simp
  have id: "insert (issue_id issueTypo) {} = {1003}" by code_simp
  note typoRule = inclusion_rule
    [where i = issueTypo and primaryLabel = "''accessibility''" and additionalLabels = "[]"
       and octo = ?octo and r = repoSite and issuesData = "[]" and processedIssueIds = "{}"
       and m = machine0]
  note contrastRule = inclusion_rule
    [where i = issueContrast and primaryLabel = "''accessibility''" and additionalLabels = "[]"]
  from typoRule typo have t1: "\<not> inclusionRule ''accessibility'' [] issueTypo" by blast
  with typoRule npr id
  have t2: "processIssue ?octo ''accessibility'' [] repoSite issueTypo [] {} machine0 =
     Some (Return ([], {1003}), machine0)"
    by simp
  from contrastRule contrast have c1: "inclusionRule ''accessibility'' [] issueContrast" by blast
  from npr t1 t2 c1 run show ?thesis by simp
qed


section \<open>The scan\<close>

lemma processIssue_pull_request:
  "pull_request i \<Longrightarrow>
     processIssue octo primaryLabel additionalLabels r i issuesData processedIssueIds m =
       Some (Return (issuesData, processedIssueIds), m)"
  by (simp add: processIssue_def)

lemma processIssue_seen:
  "issue_id i \<in> processedIssueIds \<Longrightarrow>
     processIssue octo primaryLabel additionalLabels r i issuesData processedIssueIds m =
       Some (Return (issuesData, processedIssueIds), m)"
  by (simp add: processIssue_def)

lemma processIssue_cases:
  assumes "processIssue octo primaryLabel additionalLabels r i issuesData processedIssueIds m =
             Some (Return (issuesData', processedIssueIds'), m')"
  shows "(issuesData' = issuesData \<and> processedIssueIds \<subseteq> processedIssueIds') \<or>
         (\<exists>row. issuesData' = issuesData @ [(i, row)] \<and> \<not> pull_request i \<and>
                issue_id i \<notin> processedIssueIds \<and>
                processedIssueIds' = insert (issue_id i) processedIssueIds)"
  using assms unfolding processIssue_def Let_def
  by (auto split: if_splits option.splits outcome.splits prod.splits)

lemma processIssue_rowsOk:
  assumes "processIssue octo primaryLabel additionalLabels r i issuesData processedIssueIds m =
             Some (Return (issuesData', processedIssueIds'), m')"
    and "rowsOk issuesData processedIssueIds"
  shows "rowsOk issuesData' processedIssueIds'"
  using processIssue_cases [OF assms(1)] assms(2)
  by (fastforce simp: rowsOk_def)

lemma forIssues_rowsOk:
  "forIssues octo primaryLabel additionalLabels r is issuesData processedIssueIds m =
     Some (Return (issuesData', processedIssueIds'), m') \<Longrightarrow>
   rowsOk issuesData processedIssueIds \<Longrightarrow> rowsOk issuesData' processedIssueIds'"
proof (induction "is" arbitrary: issuesData processedIssueIds m)
  case Nil
  then show ?case by simp
next
  case (Cons i rest)
  from Cons.prems(1) obtain d1 p1 m1 where
    step: "processIssue octo primaryLabel additionalLabels r i issuesData processedIssueIds m =
             Some (Return (d1, p1), m1)"
    and rest: "forIssues octo primaryLabel additionalLabels r rest d1 p1 m1 =
             Some (Return (issuesData', processedIssueIds'), m')"
    by (auto split: option.splits outcome.splits prod.splits)
  from processIssue_rowsOk [OF step Cons.prems(2)] have "rowsOk d1 p1" .
  from Cons.IH [OF rest this] show ?case .
qed

lemma forRepositories_rowsOk:
  "forRepositories octo primaryLabel additionalLabels rs issuesData processedIssueIds m =
     Some (Return (issuesData', processedIssueIds'), m') \<Longrightarrow>
   rowsOk issuesData processedIssueIds \<Longrightarrow> rowsOk issuesData' processedIssueIds'"
proof (induction rs arbitrary: issuesData processedIssueIds m)
  case Nil
  then show ?case by simp
next
  case (Cons r rest)
  from Cons.prems(1) obtain repoIssues m1 d2 p2 m2 where
    inner: "forIssues octo primaryLabel additionalLabels r repoIssues issuesData processedIssueIds m1 =
             Some (Return (d2, p2), m2)"
    and rest: "forRepositories octo primaryLabel additionalLabels rest d2 p2 m2 =
             Some (Return (issuesData', processedIssueIds'), m')"
    by (auto split: option.splits outcome.splits prod.splits)
  from forIssues_rowsOk [OF inner Cons.prems(2)] have "rowsOk d2 p2" .
  from Cons.IH [OF rest this] show ?case .
qed

lemma gather_rowsOk:
  assumes "gatherAccessibilityIssues octo orgName primaryLabel additionalLabels m =
             Some (Return (Some issuesData), m')"
  shows "\<exists>processedIssueIds. rowsOk issuesData processedIssueIds"
proof -
  from assms obtain repositories m1 p where
    "forRepositories octo primaryLabel additionalLabels repositories [] {} m1 =
       Some (Return (issuesData, p), m')"
    unfolding gatherAccessibilityIssues_def
    by (auto split: option.splits outcome.splits prod.splits if_splits)
  moreover have "rowsOk [] {}" by (simp add: rowsOk_def)
  ultimately show ?thesis using forRepositories_rowsOk by blast
qed





lemmas fetchLoop_induct = fetchLoop.raw_induct [rotated 1, consumes 1, case_names step]

lemma fetchLoop_never_returns:
  "fetchLoop apiCall ps allItems page m = Some y \<Longrightarrow>
   (\<And>w. \<exists>items w'. apiCall ps page 100 w = (Response (Some items), w') \<and> 100 \<le> length items) \<Longrightarrow>
   False"
proof (induction rule: fetchLoop_induct)
  case (step loop apiCall ps allItems page m y)
  from step.prems [of "api m"] obtain items w' where
    "apiCall ps page 100 (api m) = (Response (Some items), w')" "100 \<le> length items" by auto
  with step.hyps have "loop apiCall ps (allItems @ items) page (m\<lparr>api := w'\<rparr>) = Some y"
    by (auto split: if_splits)
  from step.IH [OF this step.prems] show False .
qed

lemma fetchLoop_full_pages_forever:
  assumes "\<And>w. \<exists>items w'. apiCall ps page 100 w = (Response (Some items), w') \<and> 100 \<le> length items"
  shows "fetchLoop apiCall ps allItems page m = None"
proof (cases "fetchLoop apiCall ps allItems page m")
  case None
  then show ?thesis .
next
  case (Some y)
  from fetchLoop_never_returns [OF this assms] show ?thesis ..
qed









text \<open>
  C6. An issue that carries the pull-request marker never produces a row. In every
  state of the scan, processing such an issue returns at once with the rows, the set of
  processed identifiers and the machine unchanged, whatever its labels, title and body:
  the pull-request test comes first. Hence every row of a finished run comes from an
  issue without the marker.
\<close>

theorem pull_request_never_exported:
  "(pull_request i \<longrightarrow>
      processIssue octo primaryLabel additionalLabels r i issuesData processedIssueIds m =
        Some (Return (issuesData, processedIssueIds), m)) \<and>
   (gatherAccessibilityIssues octo orgName primaryLabel additionalLabels m0 =
      Some (Return (Some rows), m1) \<longrightarrow>
    (\<forall>(src, row) \<in> set rows. \<not> pull_request src))"
proof (intro conjI impI)
  assume "pull_request i"
  then show "processIssue octo primaryLabel additionalLabels r i issuesData processedIssueIds m =
        Some (Return (issuesData, processedIssueIds), m)"
    by (rule processIssue_pull_request)
next
  assume "gatherAccessibilityIssues octo orgName primaryLabel additionalLabels m0 =
      Some (Return (Some rows), m1)"
  from gather_rowsOk [OF this] show "\<forall>(src, row) \<in> set rows. \<not> pull_request src"
    by (auto simp: rowsOk_def)
qed

theorem pull_request_never_exported_witness:
  "pull_request pullRequest8 \<and>
   hasRelevantLabel ''accessibility'' [] pullRequest8 \<and>
   processIssue (staticOctokit (Response (Some [repoSite]))
        (\<lambda>name. Response (Some [pullRequest8, issueContrast])) (Response (Some [])))
      ''accessibility'' [] repoSite pullRequest8 [] {} machine0 = Some (Return ([], {}), machine0) \<and>
   gatherAccessibilityIssues
      (staticOctokit (Response (Some [repoSite]))
        (\<lambda>name. Response (Some [pullRequest8, issueContrast])) (Response (Some [])))
      ''org'' ''accessibility'' [] machine0 =
     Some (Return (Some [(issueContrast, rowContrast)]), machine0\<lparr>api := 2\<rparr>) \<and>
   \<not> pull_request issueContrast"
proof -
  have pr: "pull_request pullRequest8" and lab: "hasRelevantLabel ''accessibility'' [] pullRequest8"
    and npr: "\<not> pull_request issueContrast"
    by code_simp+
  have run: "gatherAccessibilityIssues
      (staticOctokit (Response (Some [repoSite]))
        (\<lambda>name. Response (Some [pullRequest8, issueContrast])) (Response (Some [])))
      ''org'' ''accessibility'' [] machine0 =
     Some (Return (Some [(issueContrast, rowContrast)]), machine0\<lparr>api := 2\<rparr>)"
    by code_simp
  from pull_request_never_exported
    [where i = pullRequest8 and primaryLabel = "''accessibility''" and additionalLabels = "[]"
       and octo = "staticOctokit (Response (Some [repoSite]))
          (\<lambda>name. Response (Some [pullRequest8, issueContrast])) (Response (Some []))"
       and r = repoSite and issuesData = "[]" and processedIssueIds = "{}" and m = machine0]
    pr lab npr run
  show ?thesis by simp
qed

text \<open>
  C7. No two rows come from the same issue identifier. In every state of the scan, an
  issue whose identifier is already in \<open>processedIssueIds\<close> is skipped with nothing
  changed, and the source identifiers of the rows of a finished run are distinct, also
  when two listings yield the same issue.
\<close>

theorem one_row_per_issue_id:
  "(issue_id i \<in> processedIssueIds \<longrightarrow>
      processIssue octo primaryLabel additionalLabels r i issuesData processedIssueIds m =
        Some (Return (issuesData, processedIssueIds), m)) \<and>
   (gatherAccessibilityIssues octo orgName primaryLabel additionalLabels m0 =
      Some (Return (Some rows), m1) \<longrightarrow>
    distinct (map (\<lambda>(src, row). issue_id src) rows))"
proof (intro conjI impI)
  assume "issue_id i \<in> processedIssueIds"
  then show "processIssue octo primaryLabel additionalLabels r i issuesData processedIssueIds m =
        Some (Return (issuesData, processedIssueIds), m)"
    by (rule processIssue_seen)
next
  assume "gatherAccessibilityIssues octo orgName primaryLabel additionalLabels m0 =
      Some (Return (Some rows), m1)"
  from gather_rowsOk [OF this] show "distinct (map (\<lambda>(src, row). issue_id src) rows)"
    by (auto simp: rowsOk_def)
qed

theorem one_row_per_issue_id_witness:
  "gatherAccessibilityIssues
      (staticOctokit (Response (Some [repoSite, repoDocs]))
        (\<lambda>name. Response (Some [issueContrast, issueContrast])) (Response (Some [])))
      ''org'' ''accessibility'' [] machine0 =
     Some (Return (Some [(issueContrast, rowContrast)]), machine0\<lparr>api := 3\<rparr>) \<and>
   distinct (map (\<lambda>(src, row). issue_id src) [(issueContrast, rowContrast)])"
proof -
  have run: "gatherAccessibilityIssues
      (staticOctokit (Response (Some [repoSite, repoDocs]))
        (\<lambda>name. Response (Some [issueContrast, issueContrast])) (Response (Some [])))
      ''org'' ''accessibility'' [] machine0 =
     Some (Return (Some [(issueContrast, rowContrast)]), machine0\<lparr>api := 3\<rparr>)"
    by code_simp
  from one_row_per_issue_id
    [where primaryLabel = "''accessibility''" and additionalLabels = "[]" and orgName = "''org''"
       and octo = "staticOctokit (Response (Some [repoSite, repoDocs]))
          (\<lambda>name. Response (Some [issueContrast, issueContrast])) (Response (Some []))"
       and ?m0.0 = machine0 and rows = "[(issueContrast, rowContrast)]"
       and ?m1.0 = "machine0\<lparr>api := 3\<rparr>"] run
  show ?thesis by blast
qed


section \<open>Properties of fetchAllPages\<close>

lemma pagedListing_full: "\<exists>items w'. pagedListing ps 1 100 w = (Response (Some items), w') \<and> 100 \<le> length items"
  by (simp add: pagedListing_def)

text \<open>
  C1, on the code. The loop of \<open>fetchAllPages\<close> never adds to \<open>page\<close>: after a full
  page it asks for page 1 again. On the listing that answers by page number (two pages
  of 100 items, then one of 40) it therefore never returns. On the listing that answers
  by the order of the calls it makes three calls and returns the 240 items, and all
  three calls ask for page 1. The older copy of the script adds one to \<open>page\<close>; it
  has no test for a short page, and returns the 240 items after asking for pages 1 to 4.
\<close>

theorem fetchAllPages_requests_page_1_again:
  "fetchAllPages pagedListing noParams machineP = None \<and>
   fetchAllPages nthCallListing noParams machineP =
     Some (Return [0..<240], machineP\<lparr>api := [1, 1, 1]\<rparr>) \<and>
   fetchAllPages_older pagedListing noParams machineP =
     Some (Return [0..<240], machineP\<lparr>api := [1, 2, 3, 4]\<rparr>)"
proof (intro conjI)
  show "fetchAllPages pagedListing noParams machineP = None"
    unfolding fetchAllPages_def
    by (rule fetchLoop_full_pages_forever) (rule pagedListing_full)
  show "fetchAllPages nthCallListing noParams machineP =
     Some (Return [0..<240], machineP\<lparr>api := [1, 1, 1]\<rparr>)"
    by code_simp
  show "fetchAllPages_older pagedListing noParams machineP =
     Some (Return [0..<240], machineP\<lparr>api := [1, 2, 3, 4]\<rparr>)"
    by code_simp
qed











section \<open>End to end\<close>

lemma tokens_of_body: "wcagTokens (Some ''see SC 1.4.3'') = [''SC 1.4.3'', ''1.4.3'']"
  by code_simp

lemma Set_add_nonempty: "Set_add x xs \<noteq> []"
  by (auto simp: Set_add_def)

lemma fold_Set_add_nonempty: "acc \<noteq> [] \<Longrightarrow> fold Set_add xs acc \<noteq> []"
  by (induction xs arbitrary: acc) (simp_all add: Set_add_nonempty)

lemma Set_from_two:
  "Set_from ([''SC 1.4.3'', ''1.4.3''] @ others) \<noteq> []"
  by (simp add: Set_from_def fold_Set_add_nonempty Set_add_nonempty)

lemma fetchLoop_short_page:
  assumes "apiCall ps page 100 (api m) = (Response (Some items), w)"
    and "0 < length items" and "length items < 100"
  shows "fetchLoop apiCall ps allItems page m = Some (Return (allItems @ items), m\<lparr>api := w\<rparr>)"
  using assms by (subst fetchLoop.simps) simp

text \<open>
  C2, as stated: an organization with one repository that holds one issue, not a pull
  request, with the label \<open>accessibility\<close>, the body \<open>see SC 1.4.3\<close> and no comments
  gives one row whose \<open>WCAG SC\<close> field is \<open>SC 1.4.3\<close>. On such an input the run
  gives one row, and its field is \<open>SC 1.4.3; 1.4.3\<close>: the third pattern matches the
  number inside the reference that the second pattern matches.
\<close>

theorem one_issue_end_to_end_counterexample:
  "\<not> pull_request issueContrast \<and>
   labels issueContrast = [\<lparr>label.name = ''accessibility''\<rparr>] \<and>
   issue.body issueContrast = Some ''see SC 1.4.3'' \<and>
   comments issueContrast = 0 \<and>
   gatherAccessibilityIssues
       (staticOctokit (Response (Some [repoSite])) (\<lambda>name. Response (Some [issueContrast]))
          (Response (Some [])))
       ''org'' ''accessibility'' [] machine0 =
     Some (Return (Some [(issueContrast, rowContrast)]), machine0\<lparr>api := 2\<rparr>) \<and>
   WCAG_SC rowContrast = Some ''SC 1.4.3; 1.4.3'' \<and>
   WCAG_SC rowContrast \<noteq> Some ''SC 1.4.3''"
  by code_simp


text \<open>
  C2, amended: for such an organization the run returns exactly one row; its
  \<open>Last Commenter\<close> field is null, and its \<open>WCAG SC\<close> field is the list of the
  tokens \<open>SC 1.4.3\<close> and \<open>1.4.3\<close> and of the tokens of the title, without
  repetitions, joined by a semicolon and a space: \<open>SC 1.4.3; 1.4.3\<close> when the title
  holds no token.
\<close>

theorem one_issue_end_to_end:
  assumes repos: "repos_listForOrg octo (noParams\<lparr>org := Some orgName, type' := Some ''public''\<rparr>)
                    1 100 (api m) = (Response (Some [r]), w1)"
    and issues: "issues_listForRepo octo
                    (noParams\<lparr>owner := Some (login (repository.owner r)),
                              repo := Some (repository.name r), state := Some ''all''\<rparr>)
                    1 100 w1 = (Response (Some [i]), w2)"
    and pats: "patterns m = WCAG_PATTERNS"
    and npr: "\<not> pull_request i"
    and lab: "\<lparr>label.name = ''accessibility''\<rparr> \<in> set (labels i)"
    and body: "issue.body i = Some ''see SC 1.4.3''"
    and nocomments: "comments i = 0"
  shows "\<exists>row.
     gatherAccessibilityIssues octo orgName ''accessibility'' additionalLabels m =
       Some (Return (Some [(i, row)]), m\<lparr>api := w2\<rparr>) \<and>
     WCAG_SC row =
       Some (join ''; '' (Set_from ([''SC 1.4.3'', ''1.4.3''] @ wcagTokens (Some (title i))))) \<and>
     (wcagTokens (Some (title i)) = [] \<longrightarrow> WCAG_SC row = Some ''SC 1.4.3; 1.4.3'') \<and>
     Last_Commenter row = None"
proof -
  have f1: "fetchAllPages (repos_listForOrg octo)
      (noParams\<lparr>org := Some orgName, type' := Some ''public''\<rparr>) m = Some (Return [r], m\<lparr>api := w1\<rparr>)"
    unfolding fetchAllPages_def
    using fetchLoop_short_page
      [where apiCall = "repos_listForOrg octo" and page = 1 and m = m and items = "[r]"
         and w = w1 and allItems = "[]"
         and ps = "noParams\<lparr>org := Some orgName, type' := Some ''public''\<rparr>"] repos
    by simp
  have f2: "fetchAllPages (issues_listForRepo octo)
      (noParams\<lparr>owner := Some (login (repository.owner r)),
                repo := Some (repository.name r), state := Some ''all''\<rparr>) (m\<lparr>api := w1\<rparr>) =
      Some (Return [i], m\<lparr>api := w2\<rparr>)"
    unfolding fetchAllPages_def
    using fetchLoop_short_page
      [where apiCall = "issues_listForRepo octo" and page = 1 and m = "m\<lparr>api := w1\<rparr>"
         and items = "[i]" and w = w2 and allItems = "[]"
         and ps = "noParams\<lparr>owner := Some (login (repository.owner r)),
                repo := Some (repository.name r), state := Some ''all''\<rparr>"] issues
    by simp
  have rel: "hasRelevantLabel ''accessibility'' additionalLabels i"
    using lab by (force simp: hasRelevantLabel_def Let_def)
  have sc: "scanComments octo r i (m\<lparr>api := w2\<rparr>) = Some (Return (None, []), m\<lparr>api := w2\<rparr>)"
    using nocomments by (simp add: scanComments_def)
  let ?found = "Set_from ([''SC 1.4.3'', ''1.4.3''] @ wcagTokens (Some (title i)))"
  let ?row = "\<lparr>WCAG_SC = Some (join ''; '' ?found),
               Issue_ID = repository.name r @ ''-'' @ showInt (number i),
               Issue_Title = title i, Issue_URL = html_url i, Project = repository.name r,
               Status = issue.state i, Priority = None, Component = None, Version = None,
               Reporter = (case issue.user i of Some u \<Rightarrow> login u | None \<Rightarrow> ''N/A''),
               Created = created_at i, Updated = updated_at i, Comments = comments i,
               Has_Fork = (if fork r then ''Yes'' else ''No''), Last_Commenter = None,
               Extracted_At = toISOString octo w2\<rparr>"
  have ne: "?found \<noteq> []" by (rule Set_from_two)
  have m2: "m\<lparr>api := w2, patterns := WCAG_PATTERNS\<rparr> = m\<lparr>api := w2\<rparr>"
    using pats by simp
  have step: "processIssue octo ''accessibility'' additionalLabels r i [] {} (m\<lparr>api := w2\<rparr>) =
      Some (Return ([(i, ?row)], {issue_id i}), m\<lparr>api := w2\<rparr>)"
    unfolding processIssue_def Let_def
    using npr rel sc ne m2
    by (simp add: body pats findWcagScInText_initial tokens_of_body)
  have run: "gatherAccessibilityIssues octo orgName ''accessibility'' additionalLabels m =
       Some (Return (Some [(i, ?row)]), m\<lparr>api := w2\<rparr>)"
    unfolding gatherAccessibilityIssues_def by (simp add: f1 f2 step)
  have "wcagTokens (Some (title i)) = [] \<longrightarrow> join ''; '' ?found = ''SC 1.4.3; 1.4.3''"
    by (simp add: Set_from_def Set_add_def)
  with run show ?thesis by simp
qed



theorem one_issue_end_to_end_witness:
  "\<exists>row.
     gatherAccessibilityIssues
       (staticOctokit (Response (Some [repoSite])) (\<lambda>name. Response (Some [issueContrast]))
          (Response (Some [])))
       ''org'' ''accessibility'' [] machine0 =
       Some (Return (Some [(issueContrast, row)]), machine0\<lparr>api := 2\<rparr>) \<and>
     WCAG_SC row = Some ''SC 1.4.3; 1.4.3'' \<and> Last_Commenter row = None"
proof -
  let ?octo = "staticOctokit (Response (Some [repoSite])) (\<lambda>name. Response (Some [issueContrast]))
          (Response (Some []))"
  have repos: "repos_listForOrg ?octo (noParams\<lparr>org := Some ''org'', type' := Some ''public''\<rparr>)
                    1 100 (api machine0) = (Response (Some [repoSite]), 1)"
    by code_simp
  have issues: "issues_listForRepo ?octo
                    (noParams\<lparr>owner := Some (login (repository.owner repoSite)),
                              repo := Some (repository.name repoSite), state := Some ''all''\<rparr>)
                    1 100 1 = (Response (Some [issueContrast]), 2)"
    by code_simp
  have pats: "patterns machine0 = WCAG_PATTERNS" by (simp add: machine0_def)
  have npr: "\<not> pull_request issueContrast" by code_simp
  have lab: "\<lparr>label.name = ''accessibility''\<rparr> \<in> set (labels issueContrast)"
    by (simp add: issueContrast_def)
  have body: "issue.body issueContrast = Some ''see SC 1.4.3''" by (simp add: issueContrast_def)
  have nocomments: "comments issueContrast = 0" by (simp add: issueContrast_def)
  have title: "wcagTokens (Some (title issueContrast)) = []" by code_simp
  from one_issue_end_to_end [OF repos issues pats npr lab body nocomments, of "[]"] title
  show ?thesis by auto
qed


end
